theory Spec2Isabelle
  imports Main
begin

section \<open>The Ben-Or node of \<^verbatim>\<open>src/nodes/node.ts\<close>\<close>

text \<open>
  The source is one closure, \<^verbatim>\<open>node(nodeId, N, F, initialValue, isFaulty, ...)\<close>, holding
  the object \<^verbatim>\<open>state\<close>, the message store \<^verbatim>\<open>messages\<close>, the flag \<^verbatim>\<open>consensusRunning\<close> and
  the timer handle \<^verbatim>\<open>stepTimeout\<close>, and five HTTP routes around the asynchronous function
  \<^verbatim>\<open>benOrStep\<close>. The embedding keeps these names.

  \<^item> \<^verbatim>\<open>Value = 0 | 1 | "?"\<close> is a datatype; a field that may be \<^verbatim>\<open>null\<close> is an option.
  \<^item> \<^verbatim>\<open>N\<close>, \<^verbatim>\<open>F\<close>, \<^verbatim>\<open>nodeId\<close> and round numbers are integers, so the JavaScript test
    \<^verbatim>\<open>F > N/2\<close> is \<open>N < 2 * F\<close> and \<^verbatim>\<open>F <= N/2\<close> is \<open>2 * F \<le> N\<close>.
  \<^item> \<^verbatim>\<open>Math.random() < 0.5\<close> is a boolean handed to the step that draws it.
  \<^item> JavaScript runs one handler at a time, and \<^verbatim>\<open>benOrStep\<close> gives up control at each of
    its four \<^verbatim>\<open>await\<close>s. Every stretch of code between two \<^verbatim>\<open>await\<close>s is one function
    here; a suspended call is an element of \<open>inflight\<close>, and the event \<open>Resumes\<close> runs
    its next stretch. Any other event may come in between.
  \<^item> \<^verbatim>\<open>setTimeout(benOrStep, d)\<close> adds a timer to \<open>timers\<close> under a fresh handle;
    \<^verbatim>\<open>clearTimeout\<close> removes it; the event \<open>TimerFires\<close> removes it and calls
    \<^verbatim>\<open>benOrStep\<close>.
  \<^item> \<^verbatim>\<open>fetch\<close> appends the request to \<open>sent\<close> when it is called; \<^verbatim>\<open>await fetch\<close>
    suspends the loop of \<^verbatim>\<open>broadcastMessage\<close>, and with it the call of \<^verbatim>\<open>benOrStep\<close> that
    awaits the broadcast, until the request settles. A failed request is caught by the
    source and changes nothing, so \<open>Resumes\<close> stands for either outcome and the loop goes
    on with the next peer.
  \<^item> Reading \<^verbatim>\<open>messages[state.k].r\<close> when the bucket is missing throws a \<^verbatim>\<open>TypeError\<close>;
    this is the error value of a stretch.
  \<^item> The status codes and texts of the HTTP replies are left out, the body of
    \<^verbatim>\<open>/getState\<close> apart; so is the route \<^verbatim>\<open>/status\<close>, which reads \<^verbatim>\<open>isFaulty\<close> only.
  \<^item> \<^verbatim>\<open>console.log\<close> is left out.
\<close>

subsection \<open>Data\<close>

datatype Value = V0 | V1 | VUnknown

datatype MessageType = MsgR | MsgP

record Message =
  msg_type :: MessageType
  msg_nodeId :: int
  msg_k :: int
  msg_v :: "Value option"

record NodeState =
  state_killed :: bool
  state_x :: "Value option"
  state_decided :: "bool option"
  state_k :: "int option"

record Bucket =
  bucket_r :: "Message list"
  bucket_p :: "Message list"

record Config =
  cfg_nodeId :: int
  cfg_N :: int
  cfg_F :: int
  cfg_initialValue :: Value
  cfg_isFaulty :: bool

text \<open>Where a call of \<^verbatim>\<open>benOrStep\<close> is suspended: after the broadcast of its R message
  (line 96), in the first wait (line 112), after the broadcast of its P message (line 131,
  holding the local \<^verbatim>\<open>valueToPropose\<close>), in the second wait (line 147); or inside
  \<^verbatim>\<open>broadcastMessage\<close>, at the \<^verbatim>\<open>await fetch\<close> of line 49 for the peer \<open>i\<close>, holding the
  message and the place the broadcast returns to.\<close>

datatype Cont =
    AfterBroadcastR
  | AwaitR
  | AfterBroadcastP Value
  | AwaitP
  | InBroadcast Message int Cont

datatype Error = TypeError

record Node =
  state :: NodeState
  messages :: "int \<rightharpoonup> Bucket"
  consensusRunning :: bool
  stepTimeout :: "nat option"
  timers :: "(nat \<times> nat) list"
  nextTimer :: nat
  inflight :: "Cont list"
  sent :: "(int \<times> Message) list"

datatype Event =
    PostMessage Message
  | GetStart bool
  | GetStop
  | GetGetState
  | TimerFires nat
  | Resumes nat bool

subsection \<open>The closure's initial state (lines 30-40)\<close>

definition init :: "Config \<Rightarrow> Node" where
  "init cfg =
     \<lparr> state = \<lparr> state_killed = False,
                 state_x = (if cfg_isFaulty cfg then None else Some (cfg_initialValue cfg)),
                 state_decided = (if cfg_isFaulty cfg then None
                                  else (if cfg_N cfg < 2 * cfg_F cfg then Some False else Some False)),
                 state_k = (if cfg_isFaulty cfg then None
                            else (if cfg_N cfg < 2 * cfg_F cfg then Some 15 else Some 0)) \<rparr>,
       messages = Map.empty,
       consensusRunning = False,
       stepTimeout = None,
       timers = [],
       nextTimer = 0,
       inflight = [],
       sent = [] \<rparr>"

subsection \<open>Helpers of the JavaScript semantics\<close>

text \<open>\<^verbatim>\<open>!state.k\<close>: true for \<^verbatim>\<open>null\<close> and for \<^verbatim>\<open>0\<close>.\<close>

definition falsy :: "int option \<Rightarrow> bool" where
  "falsy v = (v = None \<or> v = Some 0)"

text \<open>\<^verbatim>\<open>state.k as number\<close> in arithmetic: \<^verbatim>\<open>null\<close> counts as \<^verbatim>\<open>0\<close>.\<close>

definition asNumber :: "int option \<Rightarrow> int" where
  "asNumber v = (case v of None \<Rightarrow> 0 | Some j \<Rightarrow> j)"

definition setTimeout_benOrStep :: "nat \<Rightarrow> Node \<Rightarrow> Node" where
  "setTimeout_benOrStep d n =
     n\<lparr> timers := timers n @ [(nextTimer n, d)],
        stepTimeout := Some (nextTimer n),
        nextTimer := Suc (nextTimer n) \<rparr>"

definition clearTimeout :: "nat \<Rightarrow> Node \<Rightarrow> Node" where
  "clearTimeout h n = n\<lparr> timers := filter (\<lambda>t. fst t \<noteq> h) (timers n) \<rparr>"

definition remove_nth :: "nat \<Rightarrow> 'a list \<Rightarrow> 'a list" where
  "remove_nth i xs = take i xs @ drop (Suc i) xs"

definition count0 :: "Message list \<Rightarrow> nat" where
  "count0 ms = length (filter (\<lambda>msg. msg_v msg = Some V0) ms)"

definition count1 :: "Message list \<Rightarrow> nat" where
  "count1 ms = length (filter (\<lambda>msg. msg_v msg = Some V1) ms)"

text \<open>\<^verbatim>\<open>Math.random() < 0.5 ? 0 : 1\<close>, the comparison given as \<open>lt\<close>.\<close>

definition randomBit :: "bool \<Rightarrow> Value" where
  "randomBit lt = (if lt then V0 else V1)"

subsection \<open>\<^verbatim>\<open>broadcastMessage\<close> (lines 43-61)\<close>

text \<open>The loop of lines 46-60 from the index \<open>i\<close> on: it runs to the next peer, calls
  \<^verbatim>\<open>fetch\<close> for it and is suspended there, or it ends and the broadcast returns to \<open>ret\<close>.
  The result is the place where the caller is suspended now, and the node.\<close>

function broadcastLoop :: "Config \<Rightarrow> Message \<Rightarrow> int \<Rightarrow> Cont \<Rightarrow> Node \<Rightarrow> Cont \<times> Node" where
  "broadcastLoop cfg message i ret n =
     (if i < cfg_N cfg then
        (if i \<noteq> cfg_nodeId cfg
         then (InBroadcast message i ret, n\<lparr> sent := sent n @ [(i, message)] \<rparr>)
         else broadcastLoop cfg message (i + 1) ret n)
      else (ret, n))"
  by pat_completeness auto
termination
  by (relation "measure (\<lambda>(cfg, message, i, ret, n). nat (cfg_N cfg - i))") auto

declare broadcastLoop.simps [simp del]

text \<open>The call (line 44 and the entry of the loop): \<^verbatim>\<open>state.killed\<close> is read here only.\<close>

definition broadcastMessage :: "Config \<Rightarrow> Message \<Rightarrow> Cont \<Rightarrow> Node \<Rightarrow> Cont \<times> Node" where
  "broadcastMessage cfg message ret n =
     (if state_killed (state n) \<or> cfg_isFaulty cfg then (ret, n)
      else broadcastLoop cfg message 0 ret n)"

text \<open>The request to the peer \<open>i\<close> has settled (lines 49-58): the loop goes on.\<close>

definition resumeInBroadcast :: "Config \<Rightarrow> nat \<Rightarrow> Message \<Rightarrow> int \<Rightarrow> Cont \<Rightarrow> Node \<Rightarrow> Error + Node" where
  "resumeInBroadcast cfg i message p ret n =
     (let (c, n1) = broadcastLoop cfg message (p + 1) ret n
      in Inr (n1\<lparr> inflight := (inflight n1)[i := c] \<rparr>))"

subsection \<open>\<^verbatim>\<open>benOrStep\<close> (lines 64-216)\<close>

text \<open>Lines 65-96: from the call to the first \<^verbatim>\<open>await\<close>, or to an early \<^verbatim>\<open>return\<close>.\<close>

definition benOrStep :: "Config \<Rightarrow> Node \<Rightarrow> Node" where
  "benOrStep cfg n =
     (if state_killed (state n) \<or> cfg_isFaulty cfg then n
      else if cfg_N cfg < 2 * cfg_F cfg \<and> \<not> cfg_isFaulty cfg then
        (let n1 = n\<lparr> state := (state n)\<lparr> state_decided := Some False \<rparr> \<rparr>;
             n2 = (if falsy (state_k (state n1)) \<or> asNumber (state_k (state n1)) \<le> 10
                   then n1\<lparr> state := (state n1)\<lparr> state_k := Some 15 \<rparr> \<rparr>
                   else n1)
         in if consensusRunning n2 \<and> \<not> state_killed (state n2)
            then setTimeout_benOrStep 100 n2
            else n2)
      else if state_decided (state n) = Some True \<and> 2 * cfg_F cfg \<le> cfg_N cfg then n
      else
        (let j = asNumber (state_k (state n));
             n1 = (if falsy (state_k (state n))
                   then n\<lparr> state := (state n)\<lparr> state_k := Some 0 \<rparr> \<rparr>
                   else n);
             n2 = (if messages n1 j = None
                   then n1\<lparr> messages := (messages n1)(j \<mapsto> \<lparr> bucket_r = [], bucket_p = [] \<rparr>) \<rparr>
                   else n1);
             (c, n3) = broadcastMessage cfg
                         \<lparr> msg_type = MsgR, msg_nodeId = cfg_nodeId cfg, msg_k = j,
                           msg_v = state_x (state n2) \<rparr> AfterBroadcastR n2
         in n3\<lparr> inflight := inflight n3 @ [c] \<rparr>))"

text \<open>Lines 104-112: the node's own R message goes into the bucket of its round.\<close>

definition resumeAfterBroadcastR :: "Config \<Rightarrow> nat \<Rightarrow> Node \<Rightarrow> Error + Node" where
  "resumeAfterBroadcastR cfg i n =
     (case state_k (state n) of
        None \<Rightarrow> Inl TypeError
      | Some j \<Rightarrow>
          (case messages n j of
             None \<Rightarrow> Inl TypeError
           | Some b \<Rightarrow>
               Inr (n\<lparr> messages := (messages n)(j \<mapsto>
                          b\<lparr> bucket_r := bucket_r b @
                               [\<lparr> msg_type = MsgR, msg_nodeId = cfg_nodeId cfg, msg_k = j,
                                  msg_v = state_x (state n) \<rparr>] \<rparr>),
                       inflight := (inflight n)[i := AwaitR] \<rparr>)))"

text \<open>Lines 115-136: the value to propose, from the R messages of the round.\<close>

definition valueToPropose :: "Config \<Rightarrow> Message list \<Rightarrow> bool \<Rightarrow> Value" where
  "valueToPropose cfg rs lt =
     (if cfg_N cfg < 2 * int (count0 rs) then V0
      else if cfg_N cfg < 2 * int (count1 rs) then V1
      else randomBit lt)"

definition resumeAwaitR :: "Config \<Rightarrow> nat \<Rightarrow> bool \<Rightarrow> Node \<Rightarrow> Error + Node" where
  "resumeAwaitR cfg i lt n =
     (case state_k (state n) of
        None \<Rightarrow> Inl TypeError
      | Some j \<Rightarrow>
          (case messages n j of
             None \<Rightarrow> Inl TypeError
           | Some b \<Rightarrow>
               (let v = valueToPropose cfg (bucket_r b) lt;
                    (c, n1) = broadcastMessage cfg
                                \<lparr> msg_type = MsgP, msg_nodeId = cfg_nodeId cfg, msg_k = j,
                                  msg_v = Some v \<rparr> (AfterBroadcastP v) n
                in Inr (n1\<lparr> inflight := (inflight n1)[i := c] \<rparr>))))"

text \<open>Lines 139-147: the node's own P message goes into the bucket of its round.\<close>

definition resumeAfterBroadcastP :: "Config \<Rightarrow> nat \<Rightarrow> Value \<Rightarrow> Node \<Rightarrow> Error + Node" where
  "resumeAfterBroadcastP cfg i v n =
     (case state_k (state n) of
        None \<Rightarrow> Inl TypeError
      | Some j \<Rightarrow>
          (case messages n j of
             None \<Rightarrow> Inl TypeError
           | Some b \<Rightarrow>
               Inr (n\<lparr> messages := (messages n)(j \<mapsto>
                          b\<lparr> bucket_p := bucket_p b @
                               [\<lparr> msg_type = MsgP, msg_nodeId = cfg_nodeId cfg, msg_k = j,
                                  msg_v = Some v \<rparr>] \<rparr>),
                       inflight := (inflight n)[i := AwaitP] \<rparr>)))"

text \<open>Lines 163-192: the new \<^verbatim>\<open>state.x\<close> and \<^verbatim>\<open>state.decided\<close> from the counts of the
  P messages.\<close>

definition resolveP :: "Config \<Rightarrow> nat \<Rightarrow> nat \<Rightarrow> bool \<Rightarrow> NodeState \<Rightarrow> NodeState" where
  "resolveP cfg c0 c1 lt s =
     (let threshold = cfg_N cfg - cfg_F cfg in
      if 2 * cfg_F cfg \<le> cfg_N cfg then
        (if threshold \<le> int c0 then s\<lparr> state_x := Some V0, state_decided := Some True \<rparr>
         else if threshold \<le> int c1 then s\<lparr> state_x := Some V1, state_decided := Some True \<rparr>
         else if cfg_F cfg + 1 \<le> int c0 then s\<lparr> state_x := Some V0 \<rparr>
         else if cfg_F cfg + 1 \<le> int c1 then s\<lparr> state_x := Some V1 \<rparr>
         else s\<lparr> state_x := Some (randomBit lt) \<rparr>)
      else
        (let s1 = (if cfg_F cfg + 1 \<le> int c0 then s\<lparr> state_x := Some V0 \<rparr>
                   else if cfg_F cfg + 1 \<le> int c1 then s\<lparr> state_x := Some V1 \<rparr>
                   else s\<lparr> state_x := Some (randomBit lt) \<rparr>)
         in s1\<lparr> state_decided := Some False \<rparr>))"

text \<open>Lines 194-208: the round counter goes up and the buckets of the rounds before the
  previous one are deleted.\<close>

definition nextRound :: "Config \<Rightarrow> NodeState \<Rightarrow> NodeState" where
  "nextRound cfg s =
     (if \<not> (cfg_N cfg < 2 * cfg_F cfg \<and> \<not> falsy (state_k s) \<and> 10 < asNumber (state_k s))
      then s\<lparr> state_k := Some (asNumber (state_k s) + 1) \<rparr>
      else s)"

definition pruneMessages :: "int \<Rightarrow> (int \<rightharpoonup> Bucket) \<Rightarrow> (int \<rightharpoonup> Bucket)" where
  "pruneMessages cur m = (\<lambda>key. if key < cur - 1 then None else m key)"

text \<open>Lines 150-215: from the second wait to the end of the call.\<close>

definition resumeAwaitP :: "Config \<Rightarrow> nat \<Rightarrow> bool \<Rightarrow> Node \<Rightarrow> Error + Node" where
  "resumeAwaitP cfg i lt n =
     (case state_k (state n) of
        None \<Rightarrow> Inl TypeError
      | Some j \<Rightarrow>
          (case messages n j of
             None \<Rightarrow> Inl TypeError
           | Some b \<Rightarrow>
               (let n0 = n\<lparr> inflight := remove_nth i (inflight n) \<rparr> in
                if cfg_N cfg = 1
                then Inr (n0\<lparr> state := (state n0)\<lparr> state_decided := Some True \<rparr> \<rparr>)
                else
                  (let s1 = resolveP cfg (count0 (bucket_p b)) (count1 (bucket_p b)) lt (state n0);
                       s2 = nextRound cfg s1;
                       n1 = n0\<lparr> state := s2,
                                messages := pruneMessages (asNumber (state_k s2)) (messages n0) \<rparr>
                   in Inr (if consensusRunning n1 \<and> \<not> state_killed (state n1)
                           then setTimeout_benOrStep (if cfg_N cfg < 2 * cfg_F cfg then 10 else 100) n1
                           else n1)))))"

subsection \<open>The routes\<close>

text \<open>\<^verbatim>\<open>POST /message\<close> (lines 228-249).\<close>

definition postMessage :: "Config \<Rightarrow> Message \<Rightarrow> Node \<Rightarrow> Node" where
  "postMessage cfg message n =
     (if state_killed (state n) \<or> cfg_isFaulty cfg then n
      else
        (let n1 = (if messages n (msg_k message) = None
                   then n\<lparr> messages := (messages n)(msg_k message \<mapsto> \<lparr> bucket_r = [], bucket_p = [] \<rparr>) \<rparr>
                   else n)
         in case messages n1 (msg_k message) of
              None \<Rightarrow> n1
            | Some b \<Rightarrow>
                (case msg_type message of
                   MsgR \<Rightarrow> n1\<lparr> messages := (messages n1)(msg_k message \<mapsto>
                                   b\<lparr> bucket_r := bucket_r b @ [message] \<rparr>) \<rparr>
                 | MsgP \<Rightarrow> n1\<lparr> messages := (messages n1)(msg_k message \<mapsto>
                                   b\<lparr> bucket_p := bucket_p b @ [message] \<rparr>) \<rparr>)))"

text \<open>\<^verbatim>\<open>GET /start\<close> (lines 252-275); \<open>ready\<close> is what \<^verbatim>\<open>nodesAreReady()\<close> returns.\<close>

definition getStart :: "Config \<Rightarrow> bool \<Rightarrow> Node \<Rightarrow> Node" where
  "getStart cfg ready n =
     (if state_killed (state n) \<or> cfg_isFaulty cfg then n
      else if \<not> consensusRunning n then
        (let n1 = n\<lparr> consensusRunning := True \<rparr>;
             n2 = (if cfg_N cfg < 2 * cfg_F cfg \<and> \<not> cfg_isFaulty cfg
                   then n1\<lparr> state := (state n1)\<lparr> state_k := Some 15, state_decided := Some False \<rparr> \<rparr>
                   else n1)
         in if ready then benOrStep cfg n2 else n2)
      else n)"

text \<open>\<^verbatim>\<open>GET /stop\<close> (lines 278-289).\<close>

definition getStop :: "Node \<Rightarrow> Node" where
  "getStop n =
     (let n1 = n\<lparr> state := (state n)\<lparr> state_killed := True \<rparr>, consensusRunning := False \<rparr>
      in case stepTimeout n1 of
           None \<Rightarrow> n1
         | Some h \<Rightarrow> (clearTimeout h n1)\<lparr> stepTimeout := None \<rparr>)"

text \<open>\<^verbatim>\<open>GET /getState\<close> (lines 292-318): the body of the reply and the node afterwards.\<close>

definition getState :: "Config \<Rightarrow> Node \<Rightarrow> NodeState \<times> Node" where
  "getState cfg n =
     (if cfg_N cfg < 2 * cfg_F cfg \<and> \<not> cfg_isFaulty cfg then
        (let n1 = n\<lparr> state := (state n)\<lparr> state_decided := Some False \<rparr> \<rparr>;
             n2 = (if falsy (state_k (state n1)) \<or> asNumber (state_k (state n1)) \<le> 10
                   then n1\<lparr> state := (state n1)\<lparr> state_k := Some 15 \<rparr> \<rparr>
                   else n1);
             response = \<lparr> state_killed = state_killed (state n2),
                          state_x = (if state_x (state n2) \<noteq> None then state_x (state n2) else Some V0),
                          state_decided = Some False,
                          state_k = Some 15 \<rparr>
         in (response, n2))
      else (state n, n))"

subsection \<open>The event loop\<close>

fun step :: "Config \<Rightarrow> Event \<Rightarrow> Node \<Rightarrow> Error + Node" where
  "step cfg (PostMessage message) n = Inr (postMessage cfg message n)"
| "step cfg (GetStart ready) n = Inr (getStart cfg ready n)"
| "step cfg GetStop n = Inr (getStop n)"
| "step cfg GetGetState n = Inr (snd (getState cfg n))"
| "step cfg (TimerFires h) n =
     (if h \<in> fst ` set (timers n) then Inr (benOrStep cfg (clearTimeout h n)) else Inr n)"
| "step cfg (Resumes i lt) n =
     (if i < length (inflight n) then
        (case inflight n ! i of
           AfterBroadcastR \<Rightarrow> resumeAfterBroadcastR cfg i n
         | AwaitR \<Rightarrow> resumeAwaitR cfg i lt n
         | AfterBroadcastP v \<Rightarrow> resumeAfterBroadcastP cfg i v n
         | AwaitP \<Rightarrow> resumeAwaitP cfg i lt n
         | InBroadcast message p ret \<Rightarrow> resumeInBroadcast cfg i message p ret n)
      else Inr n)"

fun run :: "Config \<Rightarrow> Event list \<Rightarrow> Node \<Rightarrow> Error + Node" where
  "run cfg [] n = Inr n"
| "run cfg (e # es) n =
     (case step cfg e n of Inl err \<Rightarrow> Inl err | Inr n' \<Rightarrow> run cfg es n')"

inductive reachable :: "Config \<Rightarrow> Node \<Rightarrow> bool" for cfg :: Config where
  reachable_init: "reachable cfg (init cfg)"
| reachable_step: "reachable cfg n \<Longrightarrow> step cfg e n = Inr n' \<Longrightarrow> reachable cfg n'"

text \<open>\<open>exec\<close> runs a list of events from the initial state; from there no \<^verbatim>\<open>TypeError\<close>
  arises (\<open>run_inv\<close> below), so the first case is never taken.\<close>

definition exec :: "Config \<Rightarrow> Event list \<Rightarrow> Node" where
  "exec cfg es = (case run cfg es (init cfg) of Inl err \<Rightarrow> init cfg | Inr n \<Rightarrow> n)"

subsection \<open>Invariants of the reachable states\<close>

text \<open>A faulty node keeps its \<^verbatim>\<open>null\<close> fields, stores nothing, schedules nothing and sends
  nothing.\<close>

definition inv_faulty :: "Node \<Rightarrow> bool" where
  "inv_faulty n \<longleftrightarrow>
     state_x (state n) = None \<and> state_decided (state n) = None \<and> state_k (state n) = None \<and>
     messages n = Map.empty \<and> \<not> consensusRunning n \<and> stepTimeout n = None \<and>
     timers n = [] \<and> inflight n = [] \<and> sent n = []"

text \<open>Scheduling: at most one call of \<^verbatim>\<open>benOrStep\<close> is suspended or scheduled, never both;
  a pending timer is the one \<^verbatim>\<open>stepTimeout\<close> refers to; nothing is pending before
  \<^verbatim>\<open>/start\<close> or after \<^verbatim>\<open>/stop\<close>.\<close>

definition inv_sched :: "Node \<Rightarrow> bool" where
  "inv_sched n \<longleftrightarrow>
     (timers n = [] \<or>
      (\<exists>h d. timers n = [(h, d)] \<and> stepTimeout n = Some h \<and> inflight n = [])) \<and>
     length (inflight n) \<le> 1 \<and>
     (\<not> consensusRunning n \<and> \<not> state_killed (state n) \<longrightarrow> inflight n = [] \<and> timers n = []) \<and>
     (state_killed (state n) \<longrightarrow> \<not> consensusRunning n \<and> timers n = [])"

text \<open>While a call of \<^verbatim>\<open>benOrStep\<close> is suspended, the fault bound holds, the node has not
  decided, and the bucket of the current round exists.\<close>

definition inv_flight :: "Config \<Rightarrow> Node \<Rightarrow> bool" where
  "inv_flight cfg n \<longleftrightarrow>
     (inflight n \<noteq> [] \<longrightarrow>
        2 * cfg_F cfg \<le> cfg_N cfg \<and> state_decided (state n) = Some False \<and>
        state_k (state n) \<noteq> None \<and> messages n (asNumber (state_k (state n))) \<noteq> None)"

text \<open>The fields of \<^verbatim>\<open>state\<close> of a node that is not faulty.\<close>

definition inv_vals :: "Config \<Rightarrow> NodeState \<Rightarrow> bool" where
  "inv_vals cfg s \<longleftrightarrow>
     state_decided s \<noteq> None \<and> state_x s \<noteq> None \<and> state_k s \<noteq> None \<and>
     (cfg_N cfg < 2 * cfg_F cfg \<longrightarrow>
        state_decided s = Some False \<and> state_k s = Some 15 \<and>
        state_x s = Some (cfg_initialValue cfg)) \<and>
     (cfg_N cfg = 1 \<longrightarrow>
        state_x s = Some (cfg_initialValue cfg) \<and>
        (2 * cfg_F cfg \<le> cfg_N cfg \<longrightarrow> state_k s = Some 0)) \<and>
     (state_decided s = Some True \<longrightarrow>
        state_x s = Some V0 \<or> state_x s = Some V1 \<or>
        (cfg_N cfg = 1 \<and> state_x s = Some (cfg_initialValue cfg)))"

definition node_inv :: "Config \<Rightarrow> Node \<Rightarrow> bool" where
  "node_inv cfg n \<longleftrightarrow>
     (if cfg_isFaulty cfg then inv_faulty n
      else inv_sched n \<and> inv_flight cfg n \<and> inv_vals cfg (state n))"

subsection \<open>Example configurations and messages\<close>

definition ex_violated :: Config where
  "ex_violated = \<lparr> cfg_nodeId = 0, cfg_N = 3, cfg_F = 2, cfg_initialValue = V1, cfg_isFaulty = False \<rparr>"

definition ex_normal :: Config where
  "ex_normal = \<lparr> cfg_nodeId = 0, cfg_N = 3, cfg_F = 1, cfg_initialValue = V1, cfg_isFaulty = False \<rparr>"

definition ex_peer_message :: Message where
  "ex_peer_message = \<lparr> msg_type = MsgP, msg_nodeId = 1, msg_k = 7, msg_v = Some V1 \<rparr>"

definition ex_peer_p :: Message where
  "ex_peer_p = \<lparr> msg_type = MsgP, msg_nodeId = 1, msg_k = 0, msg_v = Some V0 \<rparr>"

definition ex_single :: Config where
  "ex_single = \<lparr> cfg_nodeId = 0, cfg_N = 1, cfg_F = 0, cfg_initialValue = V1, cfg_isFaulty = False \<rparr>"

definition ex_single_violated :: Config where
  "ex_single_violated =
     \<lparr> cfg_nodeId = 0, cfg_N = 1, cfg_F = 1, cfg_initialValue = V1, cfg_isFaulty = False \<rparr>"

definition ex_single_unknown :: Config where
  "ex_single_unknown =
     \<lparr> cfg_nodeId = 0, cfg_N = 1, cfg_F = 0, cfg_initialValue = VUnknown, cfg_isFaulty = False \<rparr>"

definition ex_faulty :: Config where
  "ex_faulty = \<lparr> cfg_nodeId = 2, cfg_N = 3, cfg_F = 1, cfg_initialValue = V0, cfg_isFaulty = True \<rparr>"

definition ex_peer_r :: Message where
  "ex_peer_r = \<lparr> msg_type = MsgR, msg_nodeId = 1, msg_k = 0, msg_v = Some V1 \<rparr>"

definition ex_peer_old :: Message where
  "ex_peer_old = \<lparr> msg_type = MsgR, msg_nodeId = 1, msg_k = - 3, msg_v = Some V0 \<rparr>"

text \<open>Example runs of the node \<open>ex_normal\<close>, which has the peers 1 and 2: \<^verbatim>\<open>/start\<close>, then
  two requests of the R broadcast settle, the R message is stored, the first wait ends,
  two requests of the P broadcast settle, and the P message is stored.\<close>

definition ex_round_events :: "Event list" where
  "ex_round_events =
     [GetStart True, Resumes 0 True, Resumes 0 True, Resumes 0 True, Resumes 0 True,
      Resumes 0 True, Resumes 0 True, Resumes 0 True]"

definition ex_at_AwaitR :: Node where
  "ex_at_AwaitR =
     exec ex_normal [GetStart True, Resumes 0 True, Resumes 0 True, Resumes 0 True,
                     PostMessage ex_peer_r]"

definition ex_at_AwaitP :: Node where
  "ex_at_AwaitP = exec ex_normal (ex_round_events @ [PostMessage ex_peer_p])"

definition ex_decided :: Node where
  "ex_decided = exec ex_normal (ex_round_events @ [PostMessage ex_peer_p, Resumes 0 False])"

definition ex_old_before :: Node where
  "ex_old_before = exec ex_normal (PostMessage ex_peer_old # ex_round_events)"

definition ex_old_after :: Node where
  "ex_old_after = exec ex_normal (PostMessage ex_peer_old # ex_round_events @ [Resumes 0 True])"

definition ex_ahead_before :: Node where
  "ex_ahead_before = exec ex_normal (PostMessage ex_peer_message # ex_round_events)"

definition ex_ahead_after :: Node where
  "ex_ahead_after =
     exec ex_normal (PostMessage ex_peer_message # ex_round_events @ [Resumes 0 True])"

definition ex_single_at_AwaitP :: Node where
  "ex_single_at_AwaitP =
     exec ex_single [GetStart True, Resumes 0 True, Resumes 0 True, Resumes 0 True]"

definition ex_in_broadcast :: Node where
  "ex_in_broadcast = exec ex_normal [GetStart True]"

section \<open>The invariants hold in every reachable state\<close>

lemma inv_init: "node_inv cfg (init cfg)"
  by (simp add: node_inv_def inv_faulty_def inv_sched_def inv_flight_def inv_vals_def init_def)

lemma postMessage_frame:
  "state (postMessage cfg m n) = state n"
  "inflight (postMessage cfg m n) = inflight n"
  "timers (postMessage cfg m n) = timers n"
  "consensusRunning (postMessage cfg m n) = consensusRunning n"
  "stepTimeout (postMessage cfg m n) = stepTimeout n"
  "sent (postMessage cfg m n) = sent n"
  by (simp_all add: postMessage_def Let_def split: option.splits MessageType.splits)

lemma postMessage_keeps: "messages n j \<noteq> None \<Longrightarrow> messages (postMessage cfg m n) j \<noteq> None"
  by (simp add: postMessage_def Let_def split: option.splits MessageType.splits)

lemma postMessage_faulty: "cfg_isFaulty cfg \<Longrightarrow> postMessage cfg m n = n"
  by (simp add: postMessage_def)

lemma inv_postMessage: "node_inv cfg n \<Longrightarrow> node_inv cfg (postMessage cfg m n)"
  by (cases "cfg_isFaulty cfg")
     (simp_all add: node_inv_def postMessage_faulty inv_sched_def inv_flight_def
        postMessage_frame postMessage_keeps)

lemma getStop_frame:
  "state (getStop n) = (state n)\<lparr> state_killed := True \<rparr>"
  "inflight (getStop n) = inflight n"
  "messages (getStop n) = messages n"
  "consensusRunning (getStop n) = False"
  "stepTimeout (getStop n) = None"
  "sent (getStop n) = sent n"
  by (simp_all add: getStop_def Let_def clearTimeout_def split: option.splits)

lemma getStop_timers:
  "timers (getStop n) =
     (case stepTimeout n of None \<Rightarrow> timers n | Some h \<Rightarrow> filter (\<lambda>t. fst t \<noteq> h) (timers n))"
  by (simp add: getStop_def Let_def clearTimeout_def split: option.splits)

lemma inv_sched_getStop: "inv_sched n \<Longrightarrow> inv_sched (getStop n)"
  unfolding inv_sched_def getStop_frame getStop_timers
  by (auto split: option.splits)

lemma inv_getStop: "node_inv cfg n \<Longrightarrow> node_inv cfg (getStop n)"
  by (cases "cfg_isFaulty cfg")
     (simp_all add: node_inv_def inv_sched_getStop inv_flight_def inv_faulty_def inv_vals_def
        getStop_frame getStop_timers)


lemma NodeState_decided_same: "state_decided s = v \<Longrightarrow> s\<lparr> state_decided := v \<rparr> = s"
  by (cases s) simp

lemma NodeState_k_same: "state_k s = v \<Longrightarrow> s\<lparr> state_k := v \<rparr> = s"
  by (cases s) simp

lemma Node_state_same: "state n = s \<Longrightarrow> n\<lparr> state := s \<rparr> = n"
  by (cases n) simp

lemma benOrStep_idle: "state_killed (state n) \<or> cfg_isFaulty cfg \<Longrightarrow> benOrStep cfg n = n"
  by (simp add: benOrStep_def)

lemma benOrStep_forced:
  assumes "\<not> state_killed (state n)" "\<not> cfg_isFaulty cfg" "cfg_N cfg < 2 * cfg_F cfg"
    and "state_decided (state n) = Some False" "state_k (state n) = Some 15"
  shows "benOrStep cfg n = (if consensusRunning n then setTimeout_benOrStep 100 n else n)"
  using assms
  by (simp add: benOrStep_def Let_def falsy_def asNumber_def NodeState_decided_same Node_state_same)

lemma benOrStep_decided:
  "\<not> cfg_N cfg < 2 * cfg_F cfg \<Longrightarrow> state_decided (state n) = Some True \<Longrightarrow> benOrStep cfg n = n"
  by (simp add: benOrStep_def)

lemma broadcastLoop_cases:
  "broadcastLoop cfg m i ret n = (ret, n) \<or>
   (\<exists>p. i \<le> p \<and> p < cfg_N cfg \<and> p \<noteq> cfg_nodeId cfg \<and>
        broadcastLoop cfg m i ret n = (InBroadcast m p ret, n\<lparr> sent := sent n @ [(p, m)] \<rparr>))"
proof (induction cfg m i ret n rule: broadcastLoop.induct)
  case (1 cfg message i ret n)
  note eq = broadcastLoop.simps [of cfg message i ret n]
  show ?case
  proof (cases "i < cfg_N cfg")
    case False
    then show ?thesis by (simp add: eq)
  next
    case True
    show ?thesis
    proof (cases "i \<noteq> cfg_nodeId cfg")
      case True
      with \<open>i < cfg_N cfg\<close> show ?thesis by (auto simp: eq)
    next
      case False
      with \<open>i < cfg_N cfg\<close> "1.IH" have
        "broadcastLoop cfg message (i + 1) ret n = (ret, n) \<or>
         (\<exists>p. i + 1 \<le> p \<and> p < cfg_N cfg \<and> p \<noteq> cfg_nodeId cfg \<and>
            broadcastLoop cfg message (i + 1) ret n =
              (InBroadcast message p ret, n\<lparr> sent := sent n @ [(p, message)] \<rparr>))"
        by simp
      moreover have "broadcastLoop cfg message i ret n = broadcastLoop cfg message (i + 1) ret n"
        using False \<open>i < cfg_N cfg\<close> by (subst eq) simp
      ultimately show ?thesis by auto
    qed
  qed
qed

lemma broadcastLoop_frame:
  "state (snd (broadcastLoop cfg m i ret n)) = state n"
  "inflight (snd (broadcastLoop cfg m i ret n)) = inflight n"
  "messages (snd (broadcastLoop cfg m i ret n)) = messages n"
  "consensusRunning (snd (broadcastLoop cfg m i ret n)) = consensusRunning n"
  "timers (snd (broadcastLoop cfg m i ret n)) = timers n"
  "stepTimeout (snd (broadcastLoop cfg m i ret n)) = stepTimeout n"
  using broadcastLoop_cases [of cfg m i ret n] by auto

lemma broadcastMessage_frame:
  "state (snd (broadcastMessage cfg m ret n)) = state n"
  "inflight (snd (broadcastMessage cfg m ret n)) = inflight n"
  "messages (snd (broadcastMessage cfg m ret n)) = messages n"
  "consensusRunning (snd (broadcastMessage cfg m ret n)) = consensusRunning n"
  "timers (snd (broadcastMessage cfg m ret n)) = timers n"
  "stepTimeout (snd (broadcastMessage cfg m ret n)) = stepTimeout n"
  by (simp_all add: broadcastMessage_def broadcastLoop_frame)

lemma broadcastMessage_idle:
  "state_killed (state n) \<or> cfg_isFaulty cfg \<Longrightarrow> broadcastMessage cfg m ret n = (ret, n)"
  by (simp add: broadcastMessage_def)

lemma benOrStep_begin:
  assumes "\<not> state_killed (state n)" "\<not> cfg_isFaulty cfg" "\<not> cfg_N cfg < 2 * cfg_F cfg"
    and "state_decided (state n) \<noteq> Some True" "state_k (state n) = Some j"
  shows "state (benOrStep cfg n) = state n"
    and "length (inflight (benOrStep cfg n)) = Suc (length (inflight n))"
    and "timers (benOrStep cfg n) = timers n"
    and "consensusRunning (benOrStep cfg n) = consensusRunning n"
    and "stepTimeout (benOrStep cfg n) = stepTimeout n"
    and "messages (benOrStep cfg n) j \<noteq> None"
    and "messages n i \<noteq> None \<Longrightarrow> messages (benOrStep cfg n) i \<noteq> None"
  using assms
  by (simp_all add: benOrStep_def Let_def split_def falsy_def asNumber_def
       broadcastMessage_frame NodeState_k_same Node_state_same)

lemma setTimeout_frame:
  "state (setTimeout_benOrStep d n) = state n"
  "inflight (setTimeout_benOrStep d n) = inflight n"
  "messages (setTimeout_benOrStep d n) = messages n"
  "consensusRunning (setTimeout_benOrStep d n) = consensusRunning n"
  "sent (setTimeout_benOrStep d n) = sent n"
  "timers (setTimeout_benOrStep d n) = timers n @ [(nextTimer n, d)]"
  "stepTimeout (setTimeout_benOrStep d n) = Some (nextTimer n)"
  by (simp_all add: setTimeout_benOrStep_def)

lemma inv_benOrStep:
  assumes "node_inv cfg n" "inflight n = []" "timers n = []"
    and "consensusRunning n \<or> state_killed (state n)"
  shows "node_inv cfg (benOrStep cfg n)"
proof -
  consider (idle) "state_killed (state n) \<or> cfg_isFaulty cfg"
    | (forced) "\<not> state_killed (state n)" "\<not> cfg_isFaulty cfg" "cfg_N cfg < 2 * cfg_F cfg"
    | (decided) "\<not> state_killed (state n)" "\<not> cfg_isFaulty cfg" "\<not> cfg_N cfg < 2 * cfg_F cfg"
        "state_decided (state n) = Some True"
    | (starts) "\<not> state_killed (state n)" "\<not> cfg_isFaulty cfg" "\<not> cfg_N cfg < 2 * cfg_F cfg"
        "state_decided (state n) \<noteq> Some True"
    by blast
  then show ?thesis
  proof cases
    case idle
    then show ?thesis using assms(1) by (simp add: benOrStep_idle)
  next
    case forced
    with assms have v: "state_decided (state n) = Some False" "state_k (state n) = Some 15"
      and r: "consensusRunning n"
      by (simp_all add: node_inv_def inv_vals_def)
    have eq: "benOrStep cfg n = setTimeout_benOrStep 100 n"
      using forced v r by (simp add: benOrStep_forced)
    show ?thesis
      using assms forced unfolding eq node_inv_def
      by (simp add: inv_sched_def inv_flight_def setTimeout_frame)
  next
    case decided
    then show ?thesis using assms(1) by (simp add: benOrStep_decided)
  next
    case starts
    from assms(1) starts(2) obtain j where j: "state_k (state n) = Some j"
      by (auto simp: node_inv_def inv_vals_def)
    from assms(1) starts(2,4) have d: "state_decided (state n) = Some False"
      by (auto simp: node_inv_def inv_vals_def)
    note fr = benOrStep_begin [OF starts j]
    show ?thesis
      using assms starts j d unfolding node_inv_def
      by (simp add: inv_sched_def inv_flight_def fr asNumber_def)
  qed
qed

lemma getStart_idle:
  "state_killed (state n) \<or> cfg_isFaulty cfg \<or> consensusRunning n \<Longrightarrow> getStart cfg ready n = n"
  by (auto simp add: getStart_def)

lemma getStart_fresh:
  assumes "\<not> state_killed (state n)" "\<not> cfg_isFaulty cfg" "\<not> consensusRunning n"
    and "inv_vals cfg (state n)"
  shows "getStart cfg ready n =
           (if ready then benOrStep cfg (n\<lparr> consensusRunning := True \<rparr>)
            else n\<lparr> consensusRunning := True \<rparr>)"
proof (cases "cfg_N cfg < 2 * cfg_F cfg")
  case True
  with assms(4) have "(state n)\<lparr> state_k := Some 15, state_decided := Some False \<rparr> = state n"
    by (cases "state n") (simp add: inv_vals_def)
  then show ?thesis using assms True by (simp add: getStart_def Let_def)
next
  case False
  then show ?thesis using assms by (simp add: getStart_def Let_def)
qed

lemma inv_running:
  assumes "node_inv cfg n" "\<not> state_killed (state n)" "\<not> cfg_isFaulty cfg" "\<not> consensusRunning n"
  shows "node_inv cfg (n\<lparr> consensusRunning := True \<rparr>)"
  using assms by (simp add: node_inv_def inv_sched_def inv_flight_def)

lemma inv_getStart: "node_inv cfg n \<Longrightarrow> node_inv cfg (getStart cfg ready n)"
proof (cases "state_killed (state n) \<or> cfg_isFaulty cfg \<or> consensusRunning n")
  case True
  assume "node_inv cfg n"
  with True show ?thesis by (simp add: getStart_idle)
next
  case False
  assume a: "node_inv cfg n"
  from False have f: "\<not> state_killed (state n)" "\<not> cfg_isFaulty cfg" "\<not> consensusRunning n"
    by simp_all
  from a f have v: "inv_vals cfg (state n)" and e: "inflight n = []" "timers n = []"
    by (simp_all add: node_inv_def inv_sched_def)
  have r: "node_inv cfg (n\<lparr> consensusRunning := True \<rparr>)"
    using a f by (rule inv_running)
  have "node_inv cfg (benOrStep cfg (n\<lparr> consensusRunning := True \<rparr>))"
    using r e by (intro inv_benOrStep) simp_all
  with r show ?thesis by (simp add: getStart_fresh [OF f v])
qed

lemma getState_same: "node_inv cfg n \<Longrightarrow> getState cfg n = (state n, n)"
proof (cases "cfg_N cfg < 2 * cfg_F cfg \<and> \<not> cfg_isFaulty cfg")
  case True
  assume "node_inv cfg n"
  with True have v: "state_decided (state n) = Some False" "state_k (state n) = Some 15"
    "state_x (state n) = Some (cfg_initialValue cfg)"
    by (simp_all add: node_inv_def inv_vals_def)
  have "\<lparr> state_killed = state_killed (state n), state_x = Some (cfg_initialValue cfg),
          state_decided = Some False, state_k = Some 15 \<rparr> = state n"
    using v by (cases "state n") simp
  then show ?thesis
    using True v
    by (simp add: getState_def Let_def falsy_def asNumber_def NodeState_decided_same Node_state_same)
next
  case False
  then show ?thesis by (auto simp add: getState_def)
qed

lemma inv_timer:
  assumes "node_inv cfg n" "h \<in> fst ` set (timers n)"
  shows "node_inv cfg (benOrStep cfg (clearTimeout h n))"
proof -
  from assms have nf: "\<not> cfg_isFaulty cfg"
    by (auto simp: node_inv_def inv_faulty_def)
  with assms obtain d where t: "timers n = [(h, d)]" "stepTimeout n = Some h" "inflight n = []"
    by (auto simp: node_inv_def inv_sched_def)
  from assms(1) nf t have k: "consensusRunning n \<or> state_killed (state n)"
    by (auto simp: node_inv_def inv_sched_def)
  have c: "node_inv cfg (clearTimeout h n)"
    using assms(1) nf t by (simp add: node_inv_def inv_sched_def inv_flight_def clearTimeout_def)
  show ?thesis
    using c t k by (intro inv_benOrStep) (simp_all add: clearTimeout_def)
qed


lemma inflight_facts:
  assumes "node_inv cfg n" "i < length (inflight n)"
  shows "\<not> cfg_isFaulty cfg" "i = 0" "inflight n = [inflight n ! 0]" "timers n = []"
    "2 * cfg_F cfg \<le> cfg_N cfg" "state_decided (state n) = Some False"
    "\<exists>j b. state_k (state n) = Some j \<and> messages n j = Some b"
proof -
  from assms show nf: "\<not> cfg_isFaulty cfg"
    by (auto simp: node_inv_def inv_faulty_def)
  from assms nf have s: "inv_sched n" and f: "inv_flight cfg n"
    by (simp_all add: node_inv_def)
  from assms(2) have ne: "inflight n \<noteq> []" by auto
  from s assms(2) show "i = 0" by (simp add: inv_sched_def)
  from s ne show "inflight n = [inflight n ! 0]"
    by (cases "inflight n") (simp_all add: inv_sched_def)
  from s ne show "timers n = []" by (auto simp: inv_sched_def)
  from f ne show "2 * cfg_F cfg \<le> cfg_N cfg" "state_decided (state n) = Some False"
    by (simp_all add: inv_flight_def)
  from f ne show "\<exists>j b. state_k (state n) = Some j \<and> messages n j = Some b"
    by (auto simp: inv_flight_def asNumber_def)
qed

lemma inv_resumeAfterBroadcastR:
  assumes "node_inv cfg n" "i < length (inflight n)"
  shows "\<exists>n'. resumeAfterBroadcastR cfg i n = Inr n' \<and> node_inv cfg n'"
proof -
  note f = inflight_facts [OF assms]
  from f(7) obtain j b where jb: "state_k (state n) = Some j" "messages n j = Some b" by blast
  from assms(1) f(1) have "inv_sched n" "inv_vals cfg (state n)"
    by (simp_all add: node_inv_def)
  then show ?thesis
    using f(1,2,4,5,6) jb
    by (simp add: resumeAfterBroadcastR_def node_inv_def inv_sched_def inv_flight_def asNumber_def)
qed

lemma inv_resumeAwaitR:
  assumes "node_inv cfg n" "i < length (inflight n)"
  shows "\<exists>n'. resumeAwaitR cfg i lt n = Inr n' \<and> node_inv cfg n'"
proof -
  note f = inflight_facts [OF assms]
  from f(7) obtain j b where jb: "state_k (state n) = Some j" "messages n j = Some b" by blast
  from assms(1) f(1) have "inv_sched n" "inv_vals cfg (state n)"
    by (simp_all add: node_inv_def)
  then show ?thesis
    using f(1,2,4,5,6) jb
    by (simp add: resumeAwaitR_def Let_def split_def node_inv_def inv_sched_def inv_flight_def
          asNumber_def broadcastMessage_frame)
qed

lemma inv_resumeInBroadcast:
  assumes "node_inv cfg n" "i < length (inflight n)"
  shows "\<exists>n'. resumeInBroadcast cfg i m p ret n = Inr n' \<and> node_inv cfg n'"
proof -
  note f = inflight_facts [OF assms]
  from f(7) obtain j b where jb: "state_k (state n) = Some j" "messages n j = Some b" by blast
  from assms(1) f(1) have "inv_sched n" "inv_vals cfg (state n)"
    by (simp_all add: node_inv_def)
  then show ?thesis
    using f(1,2,4,5,6) jb
    by (simp add: resumeInBroadcast_def Let_def split_def node_inv_def inv_sched_def
          inv_flight_def asNumber_def broadcastLoop_frame)
qed

lemma inv_resumeAfterBroadcastP:
  assumes "node_inv cfg n" "i < length (inflight n)"
  shows "\<exists>n'. resumeAfterBroadcastP cfg i v n = Inr n' \<and> node_inv cfg n'"
proof -
  note f = inflight_facts [OF assms]
  from f(7) obtain j b where jb: "state_k (state n) = Some j" "messages n j = Some b" by blast
  from assms(1) f(1) have "inv_sched n" "inv_vals cfg (state n)"
    by (simp_all add: node_inv_def)
  then show ?thesis
    using f(1,2,4,5,6) jb
    by (simp add: resumeAfterBroadcastP_def node_inv_def inv_sched_def inv_flight_def asNumber_def)
qed

lemma resolveP_frame:
  "state_killed (resolveP cfg c0 c1 lt s) = state_killed s"
  "state_k (resolveP cfg c0 c1 lt s) = state_k s"
  by (simp_all add: resolveP_def Let_def)

lemma resolveP_x:
  "state_x (resolveP cfg c0 c1 lt s) = Some V0 \<or> state_x (resolveP cfg c0 c1 lt s) = Some V1"
  by (simp add: resolveP_def Let_def randomBit_def)

lemma resolveP_decided:
  "2 * cfg_F cfg \<le> cfg_N cfg \<Longrightarrow>
   state_decided (resolveP cfg c0 c1 lt s) =
     (if cfg_N cfg - cfg_F cfg \<le> int c0 \<or> cfg_N cfg - cfg_F cfg \<le> int c1 then Some True
      else state_decided s)"
  by (simp add: resolveP_def Let_def)

lemma nextRound_frame:
  "state_killed (nextRound cfg s) = state_killed s"
  "state_x (nextRound cfg s) = state_x s"
  "state_decided (nextRound cfg s) = state_decided s"
  by (simp_all add: nextRound_def)

lemma nextRound_k:
  "2 * cfg_F cfg \<le> cfg_N cfg \<Longrightarrow> state_k (nextRound cfg s) = Some (asNumber (state_k s) + 1)"
  by (simp add: nextRound_def)

lemma remove_nth_single: "remove_nth 0 [c] = []"
  by (simp add: remove_nth_def)

lemma inv_resumeAwaitP:
  assumes "node_inv cfg n" "i < length (inflight n)"
  shows "\<exists>n'. resumeAwaitP cfg i lt n = Inr n' \<and> node_inv cfg n'"
proof -
  note f = inflight_facts [OF assms]
  from f(7) obtain j b where jb: "state_k (state n) = Some j" "messages n j = Some b" by blast
  from assms(1) f(1) have s: "inv_sched n" and v: "inv_vals cfg (state n)"
    by (simp_all add: node_inv_def)
  have r: "remove_nth i (inflight n) = []"
    using f(2,3) remove_nth_single [of "inflight n ! 0"] by simp
  show ?thesis
  proof (cases "cfg_N cfg = 1")
    case True
    have "resumeAwaitP cfg i lt n =
            Inr (n\<lparr> inflight := [], state := (state n)\<lparr> state_decided := Some True \<rparr> \<rparr>)"
      using True jb r by (simp add: resumeAwaitP_def Let_def)
    moreover have "node_inv cfg (n\<lparr> inflight := [], state := (state n)\<lparr> state_decided := Some True \<rparr> \<rparr>)"
      using s v f(1,4,5) True
      by (simp add: node_inv_def inv_sched_def inv_flight_def inv_vals_def)
    ultimately show ?thesis by simp
  next
    case False
    define s2 where "s2 = nextRound cfg (resolveP cfg (count0 (bucket_p b)) (count1 (bucket_p b)) lt (state n))"
    define n1 where "n1 = n\<lparr> inflight := [], state := s2,
                              messages := pruneMessages (asNumber (state_k s2)) (messages n) \<rparr>"
    have eq: "resumeAwaitP cfg i lt n =
            Inr (if consensusRunning n1 \<and> \<not> state_killed (state n1)
                 then setTimeout_benOrStep (if cfg_N cfg < 2 * cfg_F cfg then 10 else 100) n1
                 else n1)"
      using False jb r by (simp add: resumeAwaitP_def Let_def s2_def n1_def)
    have v2: "inv_vals cfg s2"
      using v f(5,6) False resolveP_x [of cfg "count0 (bucket_p b)" "count1 (bucket_p b)" lt "state n"]
      by (auto simp add: inv_vals_def s2_def nextRound_frame nextRound_k resolveP_decided)
    have k2: "state_killed s2 = state_killed (state n)"
      by (simp add: s2_def nextRound_frame resolveP_frame)
    have i1: "node_inv cfg n1"
      using s v2 f(1,4) k2 by (simp add: node_inv_def inv_sched_def inv_flight_def n1_def)
    have "node_inv cfg (setTimeout_benOrStep d n1)" if "consensusRunning n1" "\<not> state_killed (state n1)" for d
      using i1 that f(1,4)
      by (simp add: node_inv_def inv_sched_def inv_flight_def setTimeout_frame n1_def)
    with i1 show ?thesis unfolding eq by simp
  qed
qed

lemma step_inv: "node_inv cfg n \<Longrightarrow> \<exists>n'. step cfg e n = Inr n' \<and> node_inv cfg n'"
proof (cases e)
  case (PostMessage m)
  assume "node_inv cfg n"
  then show ?thesis using PostMessage by (simp add: inv_postMessage)
next
  case (GetStart ready)
  assume "node_inv cfg n"
  then show ?thesis using GetStart by (simp add: inv_getStart)
next
  case GetStop
  assume "node_inv cfg n"
  then show ?thesis using GetStop by (simp add: inv_getStop)
next
  case GetGetState
  assume "node_inv cfg n"
  then show ?thesis using GetGetState by (simp add: getState_same)
next
  case (TimerFires h)
  assume "node_inv cfg n"
  then show ?thesis using TimerFires by (simp add: inv_timer)
next
  case (Resumes i lt)
  assume a: "node_inv cfg n"
  show ?thesis
  proof (cases "i < length (inflight n)")
    case True
    then show ?thesis
      using a Resumes inv_resumeAfterBroadcastR [OF a True] inv_resumeAwaitR [OF a True]
        inv_resumeAfterBroadcastP [OF a True] inv_resumeAwaitP [OF a True]
        inv_resumeInBroadcast [OF a True]
      by (simp split: Cont.splits)
  next
    case False
    then show ?thesis using a Resumes by simp
  qed
qed

lemma reachable_inv: "reachable cfg n \<Longrightarrow> node_inv cfg n"
proof (induction rule: reachable.induct)
  case reachable_init
  show ?case by (rule inv_init)
next
  case (reachable_step n e n')
  then show ?case using step_inv [of cfg n e] by auto
qed

lemma run_inv: "node_inv cfg n \<Longrightarrow> \<exists>n'. run cfg es n = Inr n' \<and> node_inv cfg n'"
proof (induction es arbitrary: n)
  case Nil
  then show ?case by simp
next
  case (Cons e es)
  from step_inv [OF Cons.prems, of e] obtain n1 where "step cfg e n = Inr n1" "node_inv cfg n1"
    by blast
  with Cons.IH [of n1] show ?case by simp
qed

lemma run_reachable: "reachable cfg n \<Longrightarrow> run cfg es n = Inr n' \<Longrightarrow> reachable cfg n'"
proof (induction es arbitrary: n)
  case Nil
  then show ?case by simp
next
  case (Cons e es)
  then show ?case
    by (auto split: sum.splits intro: reachable_step)
qed

lemma exec_reachable: "reachable cfg (exec cfg es)"
proof (cases "run cfg es (init cfg)")
  case (Inl err)
  then show ?thesis by (simp add: exec_def reachable_init)
next
  case (Inr n)
  then show ?thesis using run_reachable [OF reachable_init] by (simp add: exec_def)
qed

lemmas model_defs =
  init_def falsy_def asNumber_def setTimeout_benOrStep_def clearTimeout_def remove_nth_def
  count0_def count1_def randomBit_def broadcastLoop.simps broadcastMessage_def
  resumeInBroadcast_def benOrStep_def resumeAfterBroadcastR_def
  valueToPropose_def resumeAwaitR_def resumeAfterBroadcastP_def resolveP_def nextRound_def
  pruneMessages_def resumeAwaitP_def postMessage_def getStart_def getStop_def getState_def
  exec_def Let_def

section \<open>The claims\<close>

text \<open>
  C1. A node that is not faulty and is configured with \<open>F > N/2\<close> has
  \<^verbatim>\<open>decided = false\<close> in every reachable state, whatever events and messages led there,
  and in the reply of \<^verbatim>\<open>/getState\<close> in that state.
\<close>

theorem C1_never_decides:
  assumes "\<not> cfg_isFaulty cfg" "cfg_N cfg < 2 * cfg_F cfg" "reachable cfg n"
  shows "state_decided (state n) = Some False \<and>
         state_decided (fst (getState cfg n)) = Some False"
proof -
  from assms(3) have i: "node_inv cfg n" by (rule reachable_inv)
  with assms(1,2) have "state_decided (state n) = Some False"
    by (simp add: node_inv_def inv_vals_def)
  then show ?thesis using i by (simp add: getState_same)
qed

theorem C1_never_decides_witness:
  "\<not> cfg_isFaulty ex_violated \<and> cfg_N ex_violated < 2 * cfg_F ex_violated \<and>
   reachable ex_violated
     (exec ex_violated [GetStart True, PostMessage ex_peer_message, TimerFires 0, GetGetState]) \<and>
   state_decided (state
     (exec ex_violated [GetStart True, PostMessage ex_peer_message, TimerFires 0, GetGetState]))
     = Some False \<and>
   state_decided (fst (getState ex_violated
     (exec ex_violated [GetStart True, PostMessage ex_peer_message, TimerFires 0, GetGetState])))
     = Some False"
  using C1_never_decides [of ex_violated
      "exec ex_violated [GetStart True, PostMessage ex_peer_message, TimerFires 0, GetGetState]"]
    exec_reachable [of ex_violated]
  by (simp add: ex_violated_def)

lemma resumeAwaitP_single:
  assumes "state_k (state n) = Some j" "messages n j = Some b" "cfg_N cfg = 1"
  shows "resumeAwaitP cfg i lt n =
           Inr (n\<lparr> inflight := remove_nth i (inflight n),
                   state := (state n)\<lparr> state_decided := Some True \<rparr> \<rparr>)"
  using assms by (simp add: resumeAwaitP_def Let_def)

lemma resumeAwaitP_round:
  assumes "state_k (state n) = Some j" "messages n j = Some b" "cfg_N cfg \<noteq> 1"
  shows "\<exists>n'. resumeAwaitP cfg i lt n = Inr n' \<and>
           state n' = nextRound cfg
             (resolveP cfg (count0 (bucket_p b)) (count1 (bucket_p b)) lt (state n)) \<and>
           messages n' = pruneMessages (asNumber (state_k (state n'))) (messages n) \<and>
           sent n' = sent n \<and> inflight n' = remove_nth i (inflight n) \<and>
           (state_killed (state n) \<longrightarrow> timers n' = timers n)"
  using assms
  by (simp add: resumeAwaitP_def Let_def setTimeout_benOrStep_def nextRound_frame resolveP_frame)

text \<open>
  C2. With \<open>N > 1\<close> and \<open>F \<le> N/2\<close>, the stretch after the second wait (lines 150-192) reads
  the P messages of the current round, \<open>c0\<close> of value 0 and \<open>c1\<close> of value 1, and with
  \<open>threshold = N - F\<close> leaves \<^verbatim>\<open>(state.x, state.decided)\<close> at \<open>(0, true)\<close> if
  \<open>c0 \<ge> threshold\<close>, else \<open>(1, true)\<close> if \<open>c1 \<ge> threshold\<close>, else \<open>(0, false)\<close> if
  \<open>c0 \<ge> F + 1\<close>, else \<open>(1, false)\<close> if \<open>c1 \<ge> F + 1\<close>, else at a random bit and \<open>false\<close>.
  The source does not write \<^verbatim>\<open>state.decided\<close> in the last three cases; it is \<open>false\<close>
  there because a call of \<^verbatim>\<open>benOrStep\<close> that got past line 84 is suspended. The step does
  not throw.
\<close>

theorem C2_resolve:
  assumes "reachable cfg n" "1 < cfg_N cfg" "2 * cfg_F cfg \<le> cfg_N cfg"
    and "i < length (inflight n)" "inflight n ! i = AwaitP"
  shows "\<exists>j b n'. state_k (state n) = Some j \<and> messages n j = Some b \<and>
           step cfg (Resumes i lt) n = Inr n' \<and>
           (state_x (state n'), state_decided (state n')) =
             (let threshold = cfg_N cfg - cfg_F cfg;
                  c0 = int (length (filter (\<lambda>m. msg_v m = Some V0) (bucket_p b)));
                  c1 = int (length (filter (\<lambda>m. msg_v m = Some V1) (bucket_p b)))
              in if threshold \<le> c0 then (Some V0, Some True)
                 else if threshold \<le> c1 then (Some V1, Some True)
                 else if cfg_F cfg + 1 \<le> c0 then (Some V0, Some False)
                 else if cfg_F cfg + 1 \<le> c1 then (Some V1, Some False)
                 else (Some (if lt then V0 else V1), Some False))"
proof -
  from assms(1) have inv: "node_inv cfg n" by (rule reachable_inv)
  note f = inflight_facts [OF inv assms(4)]
  from f(7) obtain j b where jb: "state_k (state n) = Some j" "messages n j = Some b" by blast
  from assms(2) have n1: "cfg_N cfg \<noteq> 1" by simp
  from resumeAwaitP_round [OF jb n1, of i lt] obtain n' where
    r: "resumeAwaitP cfg i lt n = Inr n'"
    and s: "state n' = nextRound cfg
             (resolveP cfg (count0 (bucket_p b)) (count1 (bucket_p b)) lt (state n))"
    by blast
  have st: "step cfg (Resumes i lt) n = Inr n'"
    using assms(4,5) r by simp
  have "(state_x (state n'), state_decided (state n')) =
             (let threshold = cfg_N cfg - cfg_F cfg;
                  c0 = int (length (filter (\<lambda>m. msg_v m = Some V0) (bucket_p b)));
                  c1 = int (length (filter (\<lambda>m. msg_v m = Some V1) (bucket_p b)))
              in if threshold \<le> c0 then (Some V0, Some True)
                 else if threshold \<le> c1 then (Some V1, Some True)
                 else if cfg_F cfg + 1 \<le> c0 then (Some V0, Some False)
                 else if cfg_F cfg + 1 \<le> c1 then (Some V1, Some False)
                 else (Some (if lt then V0 else V1), Some False))"
    using assms(3) f(6)
    by (simp add: s nextRound_frame resolveP_def count0_def count1_def randomBit_def Let_def)
  with jb st show ?thesis by blast
qed

theorem C2_resolve_witness:
  "reachable ex_normal ex_at_AwaitP \<and>
   1 < cfg_N ex_normal \<and> 2 * cfg_F ex_normal \<le> cfg_N ex_normal \<and>
   0 < length (inflight ex_at_AwaitP) \<and> inflight ex_at_AwaitP ! 0 = AwaitP \<and>
   messages ex_at_AwaitP 0 =
     Some \<lparr> bucket_r = [\<lparr> msg_type = MsgR, msg_nodeId = 0, msg_k = 0, msg_v = Some V1 \<rparr>],
            bucket_p = [\<lparr> msg_type = MsgP, msg_nodeId = 0, msg_k = 0, msg_v = Some V0 \<rparr>,
                        ex_peer_p] \<rparr> \<and>
   (\<exists>n'. step ex_normal (Resumes 0 False) ex_at_AwaitP = Inr n' \<and>
      state_x (state n') = Some V0 \<and> state_decided (state n') = Some True)"
proof -
  let ?b = "\<lparr> bucket_r = [\<lparr> msg_type = MsgR, msg_nodeId = 0, msg_k = 0, msg_v = Some V1 \<rparr>],
            bucket_p = [\<lparr> msg_type = MsgP, msg_nodeId = 0, msg_k = 0, msg_v = Some V0 \<rparr>,
                        ex_peer_p] \<rparr>"
  have r: "reachable ex_normal ex_at_AwaitP"
    unfolding ex_at_AwaitP_def by (rule exec_reachable)
  have h: "1 < cfg_N ex_normal" "2 * cfg_F ex_normal \<le> cfg_N ex_normal"
    by (simp_all add: ex_normal_def)
  have l: "0 < length (inflight ex_at_AwaitP)" "inflight ex_at_AwaitP ! 0 = AwaitP"
    by (simp_all add: ex_at_AwaitP_def ex_round_events_def model_defs ex_normal_def ex_peer_p_def)
  have k: "state_k (state ex_at_AwaitP) = Some 0"
    by (simp add: ex_at_AwaitP_def ex_round_events_def model_defs ex_normal_def ex_peer_p_def)
  have m: "messages ex_at_AwaitP 0 = Some ?b"
    by (simp add: ex_at_AwaitP_def ex_round_events_def model_defs ex_normal_def ex_peer_p_def)
  from C2_resolve [OF r h l, of False] obtain j b n' where
    o: "state_k (state ex_at_AwaitP) = Some j" "messages ex_at_AwaitP j = Some b"
      "step ex_normal (Resumes 0 False) ex_at_AwaitP = Inr n'"
    and e: "(state_x (state n'), state_decided (state n')) =
             (let threshold = cfg_N ex_normal - cfg_F ex_normal;
                  c0 = int (length (filter (\<lambda>m. msg_v m = Some V0) (bucket_p b)));
                  c1 = int (length (filter (\<lambda>m. msg_v m = Some V1) (bucket_p b)))
              in if threshold \<le> c0 then (Some V0, Some True)
                 else if threshold \<le> c1 then (Some V1, Some True)
                 else if cfg_F ex_normal + 1 \<le> c0 then (Some V0, Some False)
                 else if cfg_F ex_normal + 1 \<le> c1 then (Some V1, Some False)
                 else (Some (if False then V0 else V1), Some False))"
    by blast
  from o(1) k have "j = 0" by simp
  with o(2) m have b: "b = ?b" by simp
  from e have "state_x (state n') = Some V0 \<and> state_decided (state n') = Some True"
    unfolding b by (simp add: ex_normal_def ex_peer_p_def Let_def)
  with o(3) have "\<exists>n'. step ex_normal (Resumes 0 False) ex_at_AwaitP = Inr n' \<and>
      state_x (state n') = Some V0 \<and> state_decided (state n') = Some True"
    by blast
  with r h l m show ?thesis by blast
qed

lemma broadcastLoop_start:
  "broadcastLoop cfg m 0 ret n =
     (let p = (if cfg_nodeId cfg = 0 then 1 else 0)
      in if cfg_N cfg \<le> p then (ret, n)
         else (InBroadcast m p ret, n\<lparr> sent := sent n @ [(p, m)] \<rparr>))"
proof (cases "cfg_nodeId cfg = 0")
  case True
  have "broadcastLoop cfg m 0 ret n =
          (if 0 < cfg_N cfg then broadcastLoop cfg m (0 + 1) ret n else (ret, n))"
    using True by (subst broadcastLoop.simps) simp
  also have "broadcastLoop cfg m (0 + 1) ret n =
          (if 1 < cfg_N cfg then (InBroadcast m 1 ret, n\<lparr> sent := sent n @ [(1, m)] \<rparr>)
           else (ret, n))"
    using True by (subst broadcastLoop.simps) simp
  finally show ?thesis using True by (auto simp: Let_def)
next
  case False
  then show ?thesis by (subst broadcastLoop.simps) (auto simp: Let_def)
qed

text \<open>
  C3. The stretch after the first wait (lines 115-136) reads the R messages of the current
  round, \<open>c0\<close> of value 0 and \<open>c1\<close> of value 1, and proposes 0 if \<open>c0 > N/2\<close>, else 1 if
  \<open>c1 > N/2\<close>, else the random bit. The proposal is a function of the R messages, \<open>N\<close>
  and the random bit alone. It is kept for the node's own P message, and the broadcast of
  the P message starts: unless the node is stopped or has no peer, the request to the
  first peer goes out. Nothing else in the node changes.
\<close>

theorem C3_propose:
  assumes "i < length (inflight n)" "inflight n ! i = AwaitR"
    and "state_k (state n) = Some j" "messages n j = Some b"
  shows "\<exists>n' v. step cfg (Resumes i lt) n = Inr n' \<and>
           v = (if cfg_N cfg < 2 * int (length (filter (\<lambda>m. msg_v m = Some V0) (bucket_r b)))
                then V0
                else if cfg_N cfg < 2 * int (length (filter (\<lambda>m. msg_v m = Some V1) (bucket_r b)))
                then V1
                else if lt then V0 else V1) \<and>
           n' = (let message = \<lparr> msg_type = MsgP, msg_nodeId = cfg_nodeId cfg, msg_k = j,
                                 msg_v = Some v \<rparr>;
                     p = (if cfg_nodeId cfg = 0 then 1 else 0)
                 in if state_killed (state n) \<or> cfg_isFaulty cfg \<or> cfg_N cfg \<le> p
                    then n\<lparr> inflight := (inflight n)[i := AfterBroadcastP v] \<rparr>
                    else n\<lparr> sent := sent n @ [(p, message)],
                            inflight := (inflight n)[i := InBroadcast message p (AfterBroadcastP v)] \<rparr>)"
  using assms
  by (simp add: resumeAwaitR_def valueToPropose_def count0_def count1_def randomBit_def Let_def
        broadcastMessage_def broadcastLoop_start)

theorem C3_propose_witness:
  "0 < length (inflight ex_at_AwaitR) \<and> inflight ex_at_AwaitR ! 0 = AwaitR \<and>
   state_k (state ex_at_AwaitR) = Some 0 \<and>
   messages ex_at_AwaitR 0 =
     Some \<lparr> bucket_r = [\<lparr> msg_type = MsgR, msg_nodeId = 0, msg_k = 0, msg_v = Some V1 \<rparr>, ex_peer_r],
            bucket_p = [] \<rparr> \<and>
   (\<exists>n'. step ex_normal (Resumes 0 True) ex_at_AwaitR = Inr n' \<and>
          inflight n' =
            [InBroadcast \<lparr> msg_type = MsgP, msg_nodeId = 0, msg_k = 0, msg_v = Some V1 \<rparr> 1
               (AfterBroadcastP V1)] \<and>
          sent n' = sent ex_at_AwaitR @
            [(1, \<lparr> msg_type = MsgP, msg_nodeId = 0, msg_k = 0, msg_v = Some V1 \<rparr>)])"
proof -
  let ?b = "\<lparr> bucket_r = [\<lparr> msg_type = MsgR, msg_nodeId = 0, msg_k = 0, msg_v = Some V1 \<rparr>, ex_peer_r],
              bucket_p = [] \<rparr>"
  have l: "0 < length (inflight ex_at_AwaitR)" "inflight ex_at_AwaitR ! 0 = AwaitR"
    by (simp_all add: ex_at_AwaitR_def model_defs ex_normal_def ex_peer_r_def)
  have k: "state_k (state ex_at_AwaitR) = Some 0"
    by (simp add: ex_at_AwaitR_def model_defs ex_normal_def ex_peer_r_def)
  have m: "messages ex_at_AwaitR 0 = Some ?b"
    by (simp add: ex_at_AwaitR_def model_defs ex_normal_def ex_peer_r_def)
  have i: "inflight ex_at_AwaitR = [AwaitR]"
    by (simp add: ex_at_AwaitR_def model_defs ex_normal_def ex_peer_r_def)
  have a: "\<not> state_killed (state ex_at_AwaitR)"
    by (simp add: ex_at_AwaitR_def model_defs ex_normal_def ex_peer_r_def)
  have c: "cfg_nodeId ex_normal = 0" "cfg_N ex_normal = 3" "\<not> cfg_isFaulty ex_normal"
    by (simp_all add: ex_normal_def)
  have v: "(if cfg_N ex_normal < 2 * int (length (filter (\<lambda>m. msg_v m = Some V0) (bucket_r ?b)))
            then V0
            else if cfg_N ex_normal < 2 * int (length (filter (\<lambda>m. msg_v m = Some V1) (bucket_r ?b)))
            then V1
            else if True then V0 else V1) = V1"
    by (simp add: ex_normal_def ex_peer_r_def)
  from C3_propose [OF l k m, of ex_normal True]
  have "\<exists>n'. step ex_normal (Resumes 0 True) ex_at_AwaitR = Inr n' \<and>
          inflight n' =
            [InBroadcast \<lparr> msg_type = MsgP, msg_nodeId = 0, msg_k = 0, msg_v = Some V1 \<rparr> 1
               (AfterBroadcastP V1)] \<and>
          sent n' = sent ex_at_AwaitR @
            [(1, \<lparr> msg_type = MsgP, msg_nodeId = 0, msg_k = 0, msg_v = Some V1 \<rparr>)]"
    unfolding v by (simp add: a c i Let_def)
  with l k m show ?thesis by blast
qed

lemma single_first_step:
  assumes "cfg_N cfg = 1" "2 * cfg_F cfg \<le> cfg_N cfg" "\<not> cfg_isFaulty cfg"
  shows "\<exists>n'. run cfg [GetStart True, Resumes 0 lt1, Resumes 0 lt2, Resumes 0 lt3, Resumes 0 lt4,
                      Resumes 0 lt5, Resumes 0 lt6]
                 (init cfg) = Inr n' \<and>
              state_decided (state n') = Some True \<and>
              state_x (state n') = Some (cfg_initialValue cfg) \<and>
              state_k (state n') = Some 0 \<and> inflight n' = [] \<and> timers n' = []"
proof (cases "cfg_nodeId cfg = 0")
  case True
  with assms show ?thesis by (simp add: model_defs)
next
  case False
  with assms show ?thesis by (simp add: model_defs)
qed

text \<open>
  C4, as the code has it. With \<open>N = 1\<close> and \<open>F \<le> N/2\<close>, the first call of
  \<^verbatim>\<open>benOrStep\<close> of a node that is not faulty ends with \<^verbatim>\<open>decided = true\<close>, \<^verbatim>\<open>x\<close> the
  initial value and \<^verbatim>\<open>k = 0\<close>: so when no peer message arrives at all, and so in every
  reachable state whose suspended call runs its last stretch, whatever was received.
  In every reachable state \<^verbatim>\<open>x\<close> is the initial value and \<^verbatim>\<open>k\<close> is 0.
  The call is resumed four times when \<^verbatim>\<open>nodeId\<close> is 0, and six times otherwise, as each
  of its two broadcasts then sends one request, to the index 0; a \<open>Resumes\<close> after the
  call has ended changes nothing.
\<close>

theorem C4_single_node:
  assumes "cfg_N cfg = 1" "2 * cfg_F cfg \<le> cfg_N cfg" "\<not> cfg_isFaulty cfg"
  shows "(\<forall>lt1 lt2 lt3 lt4 lt5 lt6.
            \<exists>n'. run cfg [GetStart True, Resumes 0 lt1, Resumes 0 lt2, Resumes 0 lt3, Resumes 0 lt4,
                         Resumes 0 lt5, Resumes 0 lt6]
                    (init cfg) = Inr n' \<and>
                 state_decided (state n') = Some True \<and>
                 state_x (state n') = Some (cfg_initialValue cfg) \<and>
                 state_k (state n') = Some 0 \<and> inflight n' = []) \<and>
         (\<forall>n. reachable cfg n \<longrightarrow>
            state_x (state n) = Some (cfg_initialValue cfg) \<and> state_k (state n) = Some 0 \<and>
            (\<forall>i lt. i < length (inflight n) \<and> inflight n ! i = AwaitP \<longrightarrow>
               (\<exists>n'. step cfg (Resumes i lt) n = Inr n' \<and>
                     state_decided (state n') = Some True \<and>
                     state_x (state n') = Some (cfg_initialValue cfg) \<and>
                     state_k (state n') = Some 0 \<and> inflight n' = [])))"
proof (intro conjI allI impI)
  fix lt1 lt2 lt3 lt4 lt5 lt6
  from single_first_step [OF assms, of lt1 lt2 lt3 lt4 lt5 lt6]
  show "\<exists>n'. run cfg [GetStart True, Resumes 0 lt1, Resumes 0 lt2, Resumes 0 lt3, Resumes 0 lt4,
                         Resumes 0 lt5, Resumes 0 lt6]
                    (init cfg) = Inr n' \<and>
                 state_decided (state n') = Some True \<and>
                 state_x (state n') = Some (cfg_initialValue cfg) \<and>
                 state_k (state n') = Some 0 \<and> inflight n' = []"
    by blast
next
  fix n assume "reachable cfg n"
  then have "node_inv cfg n" by (rule reachable_inv)
  with assms show "state_x (state n) = Some (cfg_initialValue cfg)" "state_k (state n) = Some 0"
    by (simp_all add: node_inv_def inv_vals_def)
next
  fix n i lt
  assume r: "reachable cfg n" and a: "i < length (inflight n) \<and> inflight n ! i = AwaitP"
  from r have inv: "node_inv cfg n" by (rule reachable_inv)
  from a have il: "i < length (inflight n)" and ia: "inflight n ! i = AwaitP" by simp_all
  note f = inflight_facts [OF inv il]
  from f(7) obtain j b where jb: "state_k (state n) = Some j" "messages n j = Some b" by blast
  from inv assms have v: "state_x (state n) = Some (cfg_initialValue cfg)" "state_k (state n) = Some 0"
    by (simp_all add: node_inv_def inv_vals_def)
  have r0: "remove_nth i (inflight n) = []"
    using f(2,3) remove_nth_single [of "inflight n ! 0"] by simp
  show "\<exists>n'. step cfg (Resumes i lt) n = Inr n' \<and>
                     state_decided (state n') = Some True \<and>
                     state_x (state n') = Some (cfg_initialValue cfg) \<and>
                     state_k (state n') = Some 0 \<and> inflight n' = []"
    using il ia v r0 by (simp add: resumeAwaitP_single [OF jb assms(1)])
qed

theorem C4_single_node_witness:
  "cfg_N ex_single = 1 \<and> 2 * cfg_F ex_single \<le> cfg_N ex_single \<and> \<not> cfg_isFaulty ex_single \<and>
   reachable ex_single ex_single_at_AwaitP \<and>
   0 < length (inflight ex_single_at_AwaitP) \<and> inflight ex_single_at_AwaitP ! 0 = AwaitP \<and>
   (\<exists>n'. step ex_single (Resumes 0 True) ex_single_at_AwaitP = Inr n' \<and>
      state_decided (state n') = Some True \<and> state_x (state n') = Some V1 \<and>
      state_k (state n') = Some 0)"
proof -
  have h: "cfg_N ex_single = 1" "2 * cfg_F ex_single \<le> cfg_N ex_single" "\<not> cfg_isFaulty ex_single"
    by (simp_all add: ex_single_def)
  have r: "reachable ex_single ex_single_at_AwaitP"
    unfolding ex_single_at_AwaitP_def by (rule exec_reachable)
  have l: "0 < length (inflight ex_single_at_AwaitP)" "inflight ex_single_at_AwaitP ! 0 = AwaitP"
    by (simp_all add: ex_single_at_AwaitP_def model_defs ex_single_def)
  have i: "cfg_initialValue ex_single = V1" by (simp add: ex_single_def)
  from C4_single_node [OF h] r l
  have "\<exists>n'. step ex_single (Resumes 0 True) ex_single_at_AwaitP = Inr n' \<and>
      state_decided (state n') = Some True \<and> state_x (state n') = Some V1 \<and>
      state_k (state n') = Some 0"
    unfolding i by blast
  with h r l show ?thesis by blast
qed

text \<open>
  C4 as stated, for every configuration with \<open>N = 1\<close>, fails when \<open>F > N/2\<close>: with
  \<open>N = 1\<close>, \<open>F = 1\<close> the first call of \<^verbatim>\<open>benOrStep\<close> returns at line 79, before the test
  \<^verbatim>\<open>N === 1\<close> of line 155, with \<^verbatim>\<open>decided = false\<close> and \<^verbatim>\<open>k = 15\<close>.
\<close>

theorem C4_counterexample:
  "cfg_N ex_single_violated = 1 \<and> \<not> cfg_isFaulty ex_single_violated \<and>
   run ex_single_violated [GetStart True] (init ex_single_violated) =
     Inr (exec ex_single_violated [GetStart True]) \<and>
   inflight (exec ex_single_violated [GetStart True]) = [] \<and>
   state_decided (state (exec ex_single_violated [GetStart True])) = Some False \<and>
   state_k (state (exec ex_single_violated [GetStart True])) = Some 15"
  by (simp add: model_defs ex_single_violated_def)

lemma step_decided:
  assumes "node_inv cfg n" "state_decided (state n) = Some True"
  shows "\<exists>n'. step cfg e n = Inr n' \<and> node_inv cfg n' \<and>
           state_x (state n') = state_x (state n) \<and> state_decided (state n') = Some True"
proof -
  from assms have nf: "\<not> cfg_isFaulty cfg"
    by (auto simp: node_inv_def inv_faulty_def)
  with assms have v: "inv_vals cfg (state n)" and fl: "inv_flight cfg n"
    by (simp_all add: node_inv_def)
  from v assms(2) have nv: "\<not> cfg_N cfg < 2 * cfg_F cfg"
    by (auto simp: inv_vals_def)
  from fl assms(2) have e: "inflight n = []"
    by (auto simp: inv_flight_def)
  have b: "benOrStep cfg m = m" if "state m = state n" for m
    using that nv assms(2) by (simp add: benOrStep_decided)
  from step_inv [OF assms(1), of e] obtain n' where
    st: "step cfg e n = Inr n'" and i': "node_inv cfg n'"
    by blast
  have "state_x (state n') = state_x (state n) \<and> state_decided (state n') = Some True"
  proof (cases e)
    case (PostMessage m)
    with st assms(2) show ?thesis by (auto simp: postMessage_frame)
  next
    case (GetStart ready)
    have "getStart cfg ready n = n \<or> getStart cfg ready n = n\<lparr> consensusRunning := True \<rparr>"
    proof (cases "state_killed (state n) \<or> cfg_isFaulty cfg \<or> consensusRunning n")
      case True
      then show ?thesis by (simp add: getStart_idle)
    next
      case False
      then have "getStart cfg ready n =
           (if ready then benOrStep cfg (n\<lparr> consensusRunning := True \<rparr>)
            else n\<lparr> consensusRunning := True \<rparr>)"
        using v by (intro getStart_fresh) simp_all
      then show ?thesis by (simp add: b)
    qed
    with st GetStart assms(2) show ?thesis by auto
  next
    case GetStop
    with st assms(2) show ?thesis by (auto simp: getStop_frame)
  next
    case GetGetState
    with st assms show ?thesis by (auto simp: getState_same)
  next
    case (TimerFires h)
    have "benOrStep cfg (clearTimeout h n) = clearTimeout h n"
      by (rule b) (simp add: clearTimeout_def)
    with st TimerFires assms(2) show ?thesis
      by (auto simp: clearTimeout_def split: if_splits)
  next
    case (Resumes i lt)
    with st e assms(2) show ?thesis by auto
  qed
  with st i' show ?thesis by blast
qed

lemma run_decided:
  assumes "node_inv cfg n" "state_decided (state n) = Some True"
  shows "\<exists>n'. run cfg es n = Inr n' \<and>
           state_x (state n') = state_x (state n) \<and> state_decided (state n') = Some True"
  using assms
proof (induction es arbitrary: n)
  case Nil
  then show ?case by simp
next
  case (Cons e es)
  from step_decided [OF Cons.prems, of e] obtain n1 where
    s: "step cfg e n = Inr n1" "node_inv cfg n1"
      "state_x (state n1) = state_x (state n)" "state_decided (state n1) = Some True"
    by blast
  from Cons.IH [OF s(2) s(4)] s(1,3) show ?case by simp
qed

text \<open>
  C5, as the code has it. In a reachable state with \<^verbatim>\<open>decided = true\<close>, \<^verbatim>\<open>x\<close> is 0 or 1
  provided \<open>N \<noteq> 1\<close> or the initial value is not \<^verbatim>\<open>"?"\<close>; and whatever events follow,
  none throws, \<^verbatim>\<open>x\<close> keeps its value and \<^verbatim>\<open>decided\<close> stays \<open>true\<close>.
\<close>

theorem C5_decided_final:
  assumes "reachable cfg n" "state_decided (state n) = Some True"
  shows "(cfg_N cfg \<noteq> 1 \<or> cfg_initialValue cfg \<noteq> VUnknown \<longrightarrow>
            state_x (state n) = Some V0 \<or> state_x (state n) = Some V1) \<and>
         (\<forall>es. \<exists>n'. run cfg es n = Inr n' \<and>
            state_x (state n') = state_x (state n) \<and> state_decided (state n') = Some True)"
proof (intro conjI allI impI)
  from assms(1) have inv: "node_inv cfg n" by (rule reachable_inv)
  {
    assume a: "cfg_N cfg \<noteq> 1 \<or> cfg_initialValue cfg \<noteq> VUnknown"
    from inv assms(2) have nf: "\<not> cfg_isFaulty cfg"
      by (auto simp: node_inv_def inv_faulty_def)
    with inv assms(2) have
      "state_x (state n) = Some V0 \<or> state_x (state n) = Some V1 \<or>
        (cfg_N cfg = 1 \<and> state_x (state n) = Some (cfg_initialValue cfg))"
      by (simp add: node_inv_def inv_vals_def)
    with a show "state_x (state n) = Some V0 \<or> state_x (state n) = Some V1"
      by (cases "cfg_initialValue cfg") auto
  }
  fix es
  from run_decided [OF inv assms(2), of es]
  show "\<exists>n'. run cfg es n = Inr n' \<and>
            state_x (state n') = state_x (state n) \<and> state_decided (state n') = Some True" .
qed

theorem C5_decided_final_witness:
  "reachable ex_normal ex_decided \<and>
   state_decided (state ex_decided) = Some True \<and>
   state_x (state ex_decided) = Some V0 \<and>
   (\<exists>n'. run ex_normal [TimerFires 0, PostMessage ex_peer_r, GetStop] ex_decided = Inr n' \<and>
          state_x (state n') = Some V0 \<and> state_decided (state n') = Some True)"
proof -
  have r: "reachable ex_normal ex_decided"
    unfolding ex_decided_def by (rule exec_reachable)
  have d: "state_decided (state ex_decided) = Some True"
    by (simp add: ex_decided_def ex_round_events_def model_defs ex_normal_def ex_peer_p_def)
  have x: "state_x (state ex_decided) = Some V0"
    by (simp add: ex_decided_def ex_round_events_def model_defs ex_normal_def ex_peer_p_def)
  from C5_decided_final [OF r d] x
  have "\<exists>n'. run ex_normal [TimerFires 0, PostMessage ex_peer_r, GetStop] ex_decided = Inr n' \<and>
          state_x (state n') = Some V0 \<and> state_decided (state n') = Some True"
    by metis
  with r d x show ?thesis by blast
qed

text \<open>
  C5 as stated fails for a single node started with the value \<^verbatim>\<open>"?"\<close>: line 156 sets
  \<^verbatim>\<open>decided = true\<close> and leaves \<^verbatim>\<open>x\<close> as it is.
\<close>

theorem C5_counterexample:
  "state_decided (state (exec ex_single_unknown
      [GetStart True, Resumes 0 True, Resumes 0 True, Resumes 0 True, Resumes 0 True]))
     = Some True \<and>
   state_x (state (exec ex_single_unknown
      [GetStart True, Resumes 0 True, Resumes 0 True, Resumes 0 True, Resumes 0 True]))
     = Some VUnknown"
  by (simp add: model_defs ex_single_unknown_def)

text \<open>
  C6, as the code has it. For a node that is not faulty and has \<open>F > N/2\<close> the round
  counter is 15 in the initial state (line 34), in every reachable state and in every
  reply of \<^verbatim>\<open>/getState\<close>: it is above 10 and never above its initial value.
\<close>

theorem C6_round_constant:
  assumes "\<not> cfg_isFaulty cfg" "cfg_N cfg < 2 * cfg_F cfg" "reachable cfg n"
  shows "state_k (state (init cfg)) = Some 15 \<and> state_k (state n) = Some 15 \<and>
         state_k (fst (getState cfg n)) = Some 15"
proof -
  from assms(3) have inv: "node_inv cfg n" by (rule reachable_inv)
  with assms(1,2) have "state_k (state n) = Some 15"
    by (simp add: node_inv_def inv_vals_def)
  then show ?thesis using assms(1,2) inv by (simp add: getState_same init_def)
qed

theorem C6_round_constant_witness:
  "\<not> cfg_isFaulty ex_violated \<and> cfg_N ex_violated < 2 * cfg_F ex_violated \<and>
   reachable ex_violated (exec ex_violated [GetStart True, TimerFires 0, TimerFires 1]) \<and>
   state_k (state (init ex_violated)) = Some 15 \<and>
   state_k (state (exec ex_violated [GetStart True, TimerFires 0, TimerFires 1])) = Some 15 \<and>
   state_k (fst (getState ex_violated
     (exec ex_violated [GetStart True, TimerFires 0, TimerFires 1]))) = Some 15"
  using C6_round_constant [of ex_violated "exec ex_violated [GetStart True, TimerFires 0, TimerFires 1]"]
    exec_reachable [of ex_violated]
  by (simp add: ex_violated_def)

text \<open>
  C6 as stated fails: with \<open>N = 3\<close>, \<open>F = 2\<close>, after \<^verbatim>\<open>/start\<close> and three further calls of
  \<^verbatim>\<open>benOrStep\<close> by its timer, the reply of \<^verbatim>\<open>/getState\<close> has the round 15, which is the
  initial value, and the next call is scheduled.
\<close>

theorem C6_counterexample:
  "\<not> cfg_isFaulty ex_violated \<and> cfg_N ex_violated < 2 * cfg_F ex_violated \<and>
   state_k (state (init ex_violated)) = Some 15 \<and>
   state_k (fst (getState ex_violated
     (exec ex_violated [GetStart True, TimerFires 0, TimerFires 1, TimerFires 2]))) = Some 15 \<and>
   timers (exec ex_violated [GetStart True, TimerFires 0, TimerFires 1, TimerFires 2])
     = [(3, 100)]"
  by (simp add: model_defs ex_violated_def)

text \<open>
  C7. In every reachable state \<^verbatim>\<open>/getState\<close> replies with the current \<^verbatim>\<open>state\<close> and
  leaves the node as it is: \<^verbatim>\<open>state\<close>, the message store and every other variable of the
  closure. With \<open>F > N/2\<close> on a node that is not faulty the reply has
  \<^verbatim>\<open>decided = false\<close> and \<^verbatim>\<open>k = 15\<close>; the assignments of lines 296-301 write the values
  the fields already have.
\<close>

theorem C7_getState_read_only:
  assumes "reachable cfg n"
  shows "snd (getState cfg n) = n \<and> fst (getState cfg n) = state n \<and>
         (cfg_N cfg < 2 * cfg_F cfg \<and> \<not> cfg_isFaulty cfg \<longrightarrow>
            state_decided (fst (getState cfg n)) = Some False \<and>
            state_k (fst (getState cfg n)) = Some 15)"
proof -
  from assms have inv: "node_inv cfg n" by (rule reachable_inv)
  then have g: "getState cfg n = (state n, n)" by (rule getState_same)
  from inv have "cfg_N cfg < 2 * cfg_F cfg \<and> \<not> cfg_isFaulty cfg \<longrightarrow>
            state_decided (state n) = Some False \<and> state_k (state n) = Some 15"
    by (auto simp: node_inv_def inv_vals_def)
  with g show ?thesis by simp
qed

theorem C7_getState_read_only_witness:
  "reachable ex_violated (exec ex_violated [PostMessage ex_peer_message, GetStart True]) \<and>
   snd (getState ex_violated (exec ex_violated [PostMessage ex_peer_message, GetStart True]))
     = exec ex_violated [PostMessage ex_peer_message, GetStart True] \<and>
   fst (getState ex_violated (exec ex_violated [PostMessage ex_peer_message, GetStart True]))
     = state (exec ex_violated [PostMessage ex_peer_message, GetStart True]) \<and>
   state_decided (fst (getState ex_violated
     (exec ex_violated [PostMessage ex_peer_message, GetStart True]))) = Some False \<and>
   state_k (fst (getState ex_violated
     (exec ex_violated [PostMessage ex_peer_message, GetStart True]))) = Some 15"
proof -
  let ?n = "exec ex_violated [PostMessage ex_peer_message, GetStart True]"
  have r: "reachable ex_violated ?n" by (rule exec_reachable)
  have h: "cfg_N ex_violated < 2 * cfg_F ex_violated \<and> \<not> cfg_isFaulty ex_violated"
    by (simp add: ex_violated_def)
  from C7_getState_read_only [OF r] h r show ?thesis by blast
qed

text \<open>
  C8, as the code has it. When the last stretch of \<^verbatim>\<open>benOrStep\<close> takes the round counter
  from \<open>j\<close> to \<open>j + 1\<close>, the message store afterwards has no bucket for a round below \<open>j\<close>,
  and every bucket for round \<open>j\<close> or later is as before: the previous round's, the
  current round's and those of later rounds.
\<close>

theorem C8_prune:
  assumes "i < length (inflight n)" "inflight n ! i = AwaitP"
    and "state_k (state n) = Some j" "step cfg (Resumes i lt) n = Inr n'"
    and "state_k (state n') = Some (j + 1)"
  shows "(\<forall>key. key < j \<longrightarrow> messages n' key = None) \<and>
         (\<forall>key. j \<le> key \<longrightarrow> messages n' key = messages n key)"
proof -
  from assms(1,2,4) have r: "resumeAwaitP cfg i lt n = Inr n'" by simp
  with assms(3) obtain b where b: "messages n j = Some b"
    by (auto simp: resumeAwaitP_def split: option.splits)
  have n1: "cfg_N cfg \<noteq> 1"
  proof
    assume "cfg_N cfg = 1"
    from r resumeAwaitP_single [OF assms(3) b this, of i lt]
    have "state_k (state n') = Some j" using assms(3) by auto
    with assms(5) show False by simp
  qed
  from resumeAwaitP_round [OF assms(3) b n1, of i lt] r
  have "messages n' = pruneMessages (asNumber (state_k (state n'))) (messages n)" by auto
  with assms(5) show ?thesis by (simp add: pruneMessages_def asNumber_def)
qed

theorem C8_prune_witness:
  "0 < length (inflight ex_old_before) \<and> inflight ex_old_before ! 0 = AwaitP \<and>
   state_k (state ex_old_before) = Some 0 \<and>
   step ex_normal (Resumes 0 True) ex_old_before = Inr ex_old_after \<and>
   state_k (state ex_old_after) = Some (0 + 1) \<and>
   messages ex_old_before (- 3) \<noteq> None \<and>
   messages ex_old_after (- 3) = None"
proof -
  have l: "0 < length (inflight ex_old_before)" "inflight ex_old_before ! 0 = AwaitP"
    by (simp_all add: ex_old_before_def ex_round_events_def model_defs ex_normal_def
          ex_peer_old_def)
  have k: "state_k (state ex_old_before) = Some 0"
    by (simp add: ex_old_before_def ex_round_events_def model_defs ex_normal_def ex_peer_old_def)
  have st: "step ex_normal (Resumes 0 True) ex_old_before = Inr ex_old_after"
    by (simp add: ex_old_before_def ex_old_after_def ex_round_events_def model_defs
          ex_normal_def ex_peer_old_def)
  have k': "state_k (state ex_old_after) = Some (0 + 1)"
    by (simp add: ex_old_after_def ex_round_events_def model_defs ex_normal_def ex_peer_old_def)
  have o: "messages ex_old_before (- 3) \<noteq> None"
    by (simp add: ex_old_before_def ex_round_events_def model_defs ex_normal_def ex_peer_old_def)
  from C8_prune [OF l k st k'] have "messages ex_old_after (- 3) = None" by simp
  with l k st k' o show ?thesis by blast
qed

text \<open>
  C8 as stated, that only the buckets of the current and of the previous round may remain,
  fails when a peer that is ahead has sent a message: the bucket of round 7 is still there
  after the node has gone from round 0 to round 1.
\<close>

theorem C8_counterexample:
  "state_k (state ex_ahead_before) = Some 0 \<and>
   step ex_normal (Resumes 0 True) ex_ahead_before = Inr ex_ahead_after \<and>
   state_k (state ex_ahead_after) = Some 1 \<and>
   messages ex_ahead_after 7 = Some \<lparr> bucket_r = [], bucket_p = [ex_peer_message] \<rparr>"
  by (simp add: ex_ahead_before_def ex_ahead_after_def ex_round_events_def model_defs
        ex_normal_def ex_peer_message_def)

lemma killed_quiet:
  assumes "node_inv cfg n" "state_killed (state n)"
  shows "\<not> consensusRunning n" "timers n = []"
  using assms by (auto simp: node_inv_def inv_faulty_def inv_sched_def split: if_splits)

lemma step_killed:
  assumes "node_inv cfg n" "state_killed (state n)"
  shows "\<exists>n'. step cfg e n = Inr n' \<and> node_inv cfg n' \<and> state_killed (state n') \<and>
           timers n' = timers n \<and> length (inflight n') \<le> length (inflight n)"
proof -
  from step_inv [OF assms(1), of e] obtain n' where
    st: "step cfg e n = Inr n'" and i': "node_inv cfg n'"
    by blast
  have "state_killed (state n') \<and> timers n' = timers n \<and>
        length (inflight n') \<le> length (inflight n)"
  proof (cases e)
    case (PostMessage m)
    with st assms(2) show ?thesis by (auto simp: postMessage_def)
  next
    case (GetStart ready)
    with st assms(2) show ?thesis by (auto simp: getStart_idle)
  next
    case GetStop
    from assms have "timers n = []" by (rule killed_quiet)
    with st GetStop assms(2) show ?thesis
      by (auto simp: getStop_frame getStop_timers split: option.splits)
  next
    case GetGetState
    with st assms show ?thesis by (auto simp: getState_same)
  next
    case (TimerFires h)
    from assms have "timers n = []" by (rule killed_quiet)
    with st TimerFires assms(2) show ?thesis by auto
  next
    case (Resumes i lt)
    show ?thesis
    proof (cases "i < length (inflight n)")
      case False
      with st Resumes assms(2) show ?thesis by auto
    next
      case True
      note f = inflight_facts [OF assms(1) True]
      from f(7) obtain j b where jb: "state_k (state n) = Some j" "messages n j = Some b"
        by blast
      show ?thesis
      proof (cases "inflight n ! i")
        case AfterBroadcastR
        with st Resumes True jb assms(2) show ?thesis
          by (auto simp: resumeAfterBroadcastR_def)
      next
        case AwaitR
        with st Resumes True jb assms(2) show ?thesis
          by (auto simp: resumeAwaitR_def Let_def broadcastMessage_idle)
      next
        case (AfterBroadcastP v)
        with st Resumes True jb assms(2) show ?thesis
          by (auto simp: resumeAfterBroadcastP_def)
      next
        case (InBroadcast m p ret)
        with st Resumes True assms(2) show ?thesis
          by (auto simp: resumeInBroadcast_def Let_def split_def broadcastLoop_frame)
      next
        case AwaitP
        show ?thesis
        proof (cases "cfg_N cfg = 1")
          case True
          from st Resumes \<open>i < length (inflight n)\<close> AwaitP assms(2)
            resumeAwaitP_single [OF jb True, of i lt]
          show ?thesis by (auto simp: remove_nth_def)
        next
          case False
          from resumeAwaitP_round [OF jb False, of i lt] st Resumes
            \<open>i < length (inflight n)\<close> AwaitP assms(2)
          show ?thesis
            by (auto simp: remove_nth_def nextRound_frame resolveP_frame)
        qed
      qed
    qed
  qed
  with st i' show ?thesis by blast
qed

lemma run_killed:
  assumes "node_inv cfg n" "state_killed (state n)"
  shows "\<exists>n'. run cfg es n = Inr n' \<and> node_inv cfg n' \<and> state_killed (state n') \<and>
           timers n' = timers n \<and> length (inflight n') \<le> length (inflight n)"
  using assms
proof (induction es arbitrary: n)
  case Nil
  then show ?case by simp
next
  case (Cons e es)
  from step_killed [OF Cons.prems, of e] obtain n1 where
    s: "step cfg e n = Inr n1" "node_inv cfg n1" "state_killed (state n1)"
      "timers n1 = timers n" "length (inflight n1) \<le> length (inflight n)"
    by blast
  from Cons.IH [OF s(2,3)] obtain n' where
    "run cfg es n1 = Inr n'" "node_inv cfg n'" "state_killed (state n')"
      "timers n' = timers n1" "length (inflight n') \<le> length (inflight n1)"
    by blast
  with s show ?case by simp
qed

lemma getStop_idem: "getStop (getStop n) = getStop n"
  by (simp add: getStop_def Let_def clearTimeout_def split: option.splits)

text \<open>A broadcast that is under way when \<^verbatim>\<open>/stop\<close> comes goes on: \<^verbatim>\<open>state.killed\<close> is
  read at line 44 only, so the request to the next peer is sent after the stop.\<close>

lemma fetch_after_stop:
  "sent (exec ex_normal [GetStart True, GetStop]) =
     [(1, \<lparr> msg_type = MsgR, msg_nodeId = 0, msg_k = 0, msg_v = Some V1 \<rparr>)] \<and>
   sent (exec ex_normal [GetStart True, GetStop, Resumes 0 True]) =
     [(1, \<lparr> msg_type = MsgR, msg_nodeId = 0, msg_k = 0, msg_v = Some V1 \<rparr>),
      (2, \<lparr> msg_type = MsgR, msg_nodeId = 0, msg_k = 0, msg_v = Some V1 \<rparr>)]"
  by (simp add: model_defs ex_normal_def)

text \<open>
  C9. \<^verbatim>\<open>/stop\<close> twice gives the state \<^verbatim>\<open>/stop\<close> once gives, with \<^verbatim>\<open>killed = true\<close>,
  \<^verbatim>\<open>consensusRunning = false\<close> and \<^verbatim>\<open>stepTimeout = null\<close>. From a reachable state no timer
  for \<^verbatim>\<open>benOrStep\<close> is pending after \<^verbatim>\<open>/stop\<close>, and whatever events follow, none throws
  and then still \<^verbatim>\<open>killed\<close> holds, nothing is running or pending, a call of
  \<^verbatim>\<open>benOrStep\<close> returns at line 65 and no further call is suspended: no round starts. The
  call that was suspended when \<^verbatim>\<open>/stop\<close> came runs to its end.
\<close>

theorem C9_stop_idempotent:
  "getStop (getStop n) = getStop n \<and>
   state_killed (state (getStop n)) \<and> \<not> consensusRunning (getStop n) \<and>
   stepTimeout (getStop n) = None \<and>
   (reachable cfg n \<longrightarrow>
      timers (getStop n) = [] \<and>
      (\<forall>es. \<exists>n'. run cfg es (getStop n) = Inr n' \<and>
         state_killed (state n') \<and> \<not> consensusRunning n' \<and> timers n' = [] \<and>
         benOrStep cfg n' = n' \<and>
         length (inflight n') \<le> length (inflight n)))"
proof (intro conjI impI allI)
  show "getStop (getStop n) = getStop n" by (rule getStop_idem)
  show "state_killed (state (getStop n))" "\<not> consensusRunning (getStop n)"
    "stepTimeout (getStop n) = None"
    by (simp_all add: getStop_frame)
next
  assume "reachable cfg n"
  then have "node_inv cfg (getStop n)" by (intro inv_getStop reachable_inv)
  then show "timers (getStop n) = []"
    by (intro killed_quiet(2)) (simp_all add: getStop_frame)
next
  fix es
  assume "reachable cfg n"
  then have i: "node_inv cfg (getStop n)" by (intro inv_getStop reachable_inv)
  have k: "state_killed (state (getStop n))" by (simp add: getStop_frame)
  from run_killed [OF i k, of es] obtain n' where
    r: "run cfg es (getStop n) = Inr n'" "node_inv cfg n'" "state_killed (state n')"
      "length (inflight n') \<le> length (inflight (getStop n))"
    by blast
  from killed_quiet [OF r(2,3)] r
  show "\<exists>n'. run cfg es (getStop n) = Inr n' \<and>
         state_killed (state n') \<and> \<not> consensusRunning n' \<and> timers n' = [] \<and>
         benOrStep cfg n' = n' \<and>
         length (inflight n') \<le> length (inflight n)"
    by (simp add: benOrStep_idle getStop_frame)
qed

theorem C9_stop_idempotent_witness:
  "reachable ex_normal ex_in_broadcast \<and>
   getStop (getStop ex_in_broadcast) = getStop ex_in_broadcast \<and>
   timers (getStop ex_in_broadcast) = [] \<and>
   (\<exists>n'. run ex_normal
            [Resumes 0 True, Resumes 0 True, Resumes 0 True, GetStart True, TimerFires 0]
            (getStop ex_in_broadcast) = Inr n' \<and>
          state_killed (state n') \<and> \<not> consensusRunning n' \<and> timers n' = [] \<and>
          benOrStep ex_normal n' = n' \<and>
          length (inflight n') \<le> length (inflight ex_in_broadcast))"
proof -
  have r: "reachable ex_normal ex_in_broadcast"
    unfolding ex_in_broadcast_def by (rule exec_reachable)
  from C9_stop_idempotent [of ex_in_broadcast ex_normal] r show ?thesis by blast
qed

text \<open>
  C10. On a faulty node \<^verbatim>\<open>x\<close>, \<^verbatim>\<open>decided\<close> and \<^verbatim>\<open>k\<close> are \<^verbatim>\<open>null\<close> in the initial state and
  in every reachable state, nothing has been sent, no call of \<^verbatim>\<open>benOrStep\<close> is suspended
  or scheduled, and \<^verbatim>\<open>broadcastMessage\<close> and \<^verbatim>\<open>benOrStep\<close> return at once with the node
  unchanged.
\<close>

theorem C10_faulty_silent:
  assumes "cfg_isFaulty cfg" "reachable cfg n"
  shows "state_x (state (init cfg)) = None \<and> state_decided (state (init cfg)) = None \<and>
         state_k (state (init cfg)) = None \<and>
         state_x (state n) = None \<and> state_decided (state n) = None \<and> state_k (state n) = None \<and>
         sent n = [] \<and> inflight n = [] \<and> timers n = [] \<and>
         (\<forall>m ret. broadcastMessage cfg m ret n = (ret, n)) \<and> benOrStep cfg n = n"
proof -
  from assms(2) have "node_inv cfg n" by (rule reachable_inv)
  with assms(1) have "inv_faulty n" by (simp add: node_inv_def)
  then show ?thesis
    using assms(1) by (simp add: inv_faulty_def init_def broadcastMessage_def benOrStep_def)
qed

theorem C10_faulty_silent_witness:
  "cfg_isFaulty ex_faulty \<and>
   reachable ex_faulty (exec ex_faulty [GetStart True, PostMessage ex_peer_r, Resumes 0 True]) \<and>
   state_x (state (exec ex_faulty [GetStart True, PostMessage ex_peer_r, Resumes 0 True])) = None \<and>
   state_decided (state (exec ex_faulty [GetStart True, PostMessage ex_peer_r, Resumes 0 True]))
     = None \<and>
   state_k (state (exec ex_faulty [GetStart True, PostMessage ex_peer_r, Resumes 0 True])) = None \<and>
   sent (exec ex_faulty [GetStart True, PostMessage ex_peer_r, Resumes 0 True]) = []"
proof -
  let ?n = "exec ex_faulty [GetStart True, PostMessage ex_peer_r, Resumes 0 True]"
  have f: "cfg_isFaulty ex_faulty" by (simp add: ex_faulty_def)
  have r: "reachable ex_faulty ?n" by (rule exec_reachable)
  from C10_faulty_silent [OF f r] f r show ?thesis by blast
qed

end
